theory Spec2Isabelle
  imports Main "HOL-Library.Sublist" "HOL-Library.Multiset"
begin

section \<open>Environment manager (package env)\<close>

text \<open>
  Go strings are byte sequences; they are modelled as \<open>string\<close> (lists of 8-bit
  characters).  A \<open>Manager\<close> wraps the Go map \<open>baseEnv map[string]string\<close>, modelled as a
  partial function from names to values.
\<close>

type_synonym Manager = "string \<rightharpoonup> string"

subsection \<open>Library function \<open>strings.TrimSpace\<close>\<close>

text \<open>
  \<open>strings.TrimSpace\<close> removes all leading and trailing white space, as defined by
  Unicode.  On UTF-8 encoded text these are the following byte sequences
  (\<open>unicode.IsSpace\<close>): the ASCII characters tab, line feed, vertical tab, form feed,
  carriage return and space, then U+0085, U+00A0, U+1680, U+2000..U+200A, U+2028, U+2029,
  U+202F, U+205F and U+3000.
\<close>

definition unicode_space_encodings :: "string list" where
  "unicode_space_encodings =
     [[CHR 0x09], [CHR 0x0A], [CHR 0x0B], [CHR 0x0C], [CHR 0x0D], [CHR 0x20],
      [CHR 0xC2, CHR 0x85], [CHR 0xC2, CHR 0xA0],
      [CHR 0xE1, CHR 0x9A, CHR 0x80],
      [CHR 0xE2, CHR 0x80, CHR 0x80], [CHR 0xE2, CHR 0x80, CHR 0x81],
      [CHR 0xE2, CHR 0x80, CHR 0x82], [CHR 0xE2, CHR 0x80, CHR 0x83],
      [CHR 0xE2, CHR 0x80, CHR 0x84], [CHR 0xE2, CHR 0x80, CHR 0x85],
      [CHR 0xE2, CHR 0x80, CHR 0x86], [CHR 0xE2, CHR 0x80, CHR 0x87],
      [CHR 0xE2, CHR 0x80, CHR 0x88], [CHR 0xE2, CHR 0x80, CHR 0x89],
      [CHR 0xE2, CHR 0x80, CHR 0x8A],
      [CHR 0xE2, CHR 0x80, CHR 0xA8], [CHR 0xE2, CHR 0x80, CHR 0xA9],
      [CHR 0xE2, CHR 0x80, CHR 0xAF],
      [CHR 0xE2, CHR 0x81, CHR 0x9F],
      [CHR 0xE3, CHR 0x80, CHR 0x80]]"

text \<open>Strip, repeatedly, any of the given non-empty sequences from the front.\<close>

function strip_leading :: "string list \<Rightarrow> string \<Rightarrow> string" where
  "strip_leading encs s =
     (case find (\<lambda>e. e \<noteq> [] \<and> prefix e s) encs of
        None \<Rightarrow> s
      | Some e \<Rightarrow> strip_leading encs (drop (length e) s))"
  by pat_completeness auto
termination
proof (relation "measure (\<lambda>(encs, s). length s)")
  show "wf (measure (\<lambda>(encs, s). length s))" by simp
next
  fix encs :: "string list" and s e :: string
  assume "find (\<lambda>e. e \<noteq> [] \<and> prefix e s) encs = Some e"
  then have "e \<noteq> []" and "prefix e s"
    by (auto simp: find_Some_iff)
  then have "s \<noteq> []" by auto
  with \<open>e \<noteq> []\<close> show "((encs, drop (length e) s), (encs, s)) \<in> measure (\<lambda>(encs, s). length s)"
    by simp
qed

definition TrimSpace :: "string \<Rightarrow> string" where
  "TrimSpace s =
     rev (strip_leading (map rev unicode_space_encodings)
            (rev (strip_leading unicode_space_encodings s)))"

subsection \<open>Manager operations\<close>

definition Manager_Set :: "Manager \<Rightarrow> string \<Rightarrow> string \<Rightarrow> Manager" where
  "Manager_Set e key v = e(key \<mapsto> v)"

text \<open>The pair \<open>(value, ok)\<close> that \<open>Get\<close> returns is an \<open>option\<close>.\<close>

definition Manager_Get :: "Manager \<Rightarrow> string \<Rightarrow> string option" where
  "Manager_Get e key = e key"

definition Manager_PrependToVar :: "Manager \<Rightarrow> string \<Rightarrow> string \<Rightarrow> string \<Rightarrow> Manager" where
  "Manager_PrependToVar e key v sep =
     (case e key of
        Some existing \<Rightarrow>
          if TrimSpace existing \<noteq> [] then e(key \<mapsto> v @ sep @ existing)
          else e(key \<mapsto> v)
      | None \<Rightarrow> e(key \<mapsto> v))"

subsection \<open>Substitution of \<open>${VAR}\<close>\<close>

text \<open>
  \<open>reSubst\<close> is the regular expression \<open>\$\{([^}]+)}\<close>.  It matches at a position exactly
  when the text there starts with \<open>${\<close>, is followed by at least one character other than
  \<open>}\<close>, and a \<open>}\<close> comes later; the match then ends at the first such \<open>}\<close>.
  \<open>match_var s\<close> is the name and the text after the match when \<open>s\<close> starts with one.
\<close>

definition match_var :: "string \<Rightarrow> (string \<times> string) option" where
  "match_var s =
     (case s of
        c1 # c2 # r \<Rightarrow>
          if c1 = CHR ''$'' \<and> c2 = CHR ''{'' then
            (let name = takeWhile (\<lambda>c. c \<noteq> CHR ''}'') r;
                 after = dropWhile (\<lambda>c. c \<noteq> CHR ''}'') r
             in if name \<noteq> [] \<and> after \<noteq> [] then Some (name, tl after) else None)
          else None
      | _ \<Rightarrow> None)"

lemma match_var_shorter: "match_var s = Some (name, rest) \<Longrightarrow> length rest < length s"
proof -
  assume a: "match_var s = Some (name, rest)"
  then obtain r where s: "s = CHR ''$'' # CHR ''{'' # r"
    and rest: "rest = tl (dropWhile (\<lambda>c. c \<noteq> CHR ''}'') r)"
    by (auto simp: match_var_def Let_def split: list.splits if_splits)
  have "length (dropWhile (\<lambda>c. c \<noteq> CHR ''}'') r) \<le> length r"
    by (rule length_dropWhile_le)
  then show ?thesis by (simp add: s rest)
qed

text \<open>
  \<open>reSubst.ReplaceAllStringFunc(s, f)\<close> with the callback of \<open>Subst\<close>: every match, from
  left to right and without overlap, is replaced by the value found for its name, or left
  as it is when the lookup finds none; the text between matches is copied.
\<close>

function subst_with :: "(string \<Rightarrow> string option) \<Rightarrow> string \<Rightarrow> string" where
  "subst_with lookup [] = []"
| "subst_with lookup (c # s) =
     (case match_var (c # s) of
        Some (varName, rest) \<Rightarrow>
          (case lookup varName of
             Some val \<Rightarrow> val
           | None \<Rightarrow> ''${'' @ varName @ ''}'') @ subst_with lookup rest
      | None \<Rightarrow> c # subst_with lookup s)"
  by pat_completeness auto
termination
  by (relation "measure (\<lambda>(lookup, s). length s)") (auto dest: match_var_shorter)

definition Manager_Subst :: "Manager \<Rightarrow> string \<Rightarrow> string" where
  "Manager_Subst e s = subst_with (Manager_Get e) s"

text \<open>\<open>EnvSubst\<close> of the older package \<open>pkg\<close>: the same substitution over its map \<open>vars\<close>.\<close>

type_synonym EnvSubst = "string \<rightharpoonup> string"

definition EnvSubst_Subst :: "EnvSubst \<Rightarrow> string \<Rightarrow> string" where
  "EnvSubst_Subst vars s = subst_with vars s"

text \<open>
  Values that substitution leaves alone and that cannot complete a \<open>${\<close> with the text
  around them: not empty, not starting with \<open>{\<close>, not ending with \<open>$\<close>, and without
  \<open>${\<close> inside.
\<close>

fun no_dollar_brace :: "string \<Rightarrow> bool" where
  "no_dollar_brace [] = True"
| "no_dollar_brace [c] = (c \<noteq> CHR ''$'')"
| "no_dollar_brace (c # d # s) = (\<not> (c = CHR ''$'' \<and> d = CHR ''{'') \<and> no_dollar_brace (d # s))"

definition inert_value :: "string \<Rightarrow> bool" where
  "inert_value v = (v \<noteq> [] \<and> hd v \<noteq> CHR ''{'' \<and> no_dollar_brace v)"

subsection \<open>Layered environment\<close>

text \<open>
  \<open>mergedEnv\<close> holds the slice \<open>envs\<close>; its layers are managers, the one basic
  implementation of the interface \<open>Env\<close>.  Index 0 is the topmost layer.
\<close>

type_synonym mergedEnv = "Manager list"

fun mergedEnv_Get :: "mergedEnv \<Rightarrow> string \<Rightarrow> string option" where
  "mergedEnv_Get [] key = None"
| "mergedEnv_Get (env # envs) key =
     (case Manager_Get env key of
        Some val \<Rightarrow> Some val
      | None \<Rightarrow> mergedEnv_Get envs key)"

definition mergedEnv_Set :: "mergedEnv \<Rightarrow> string \<Rightarrow> string \<Rightarrow> mergedEnv" where
  "mergedEnv_Set m key v =
     (case m of [] \<Rightarrow> [] | env # envs \<Rightarrow> Manager_Set env key v # envs)"

definition mergedEnv_Subst :: "mergedEnv \<Rightarrow> string \<Rightarrow> string" where
  "mergedEnv_Subst m s = subst_with (mergedEnv_Get m) s"

subsection \<open>Snapshots\<close>

text \<open>
  \<open>Manager.ToSlice\<close> ranges over a Go map, whose iteration order is not specified.  The
  order that a run takes is a parameter: \<open>order\<close> lists the keys in the order of the
  iteration, and \<open>map_iteration order e\<close> says that it is an iteration of the map \<open>e\<close> (every
  key once).
\<close>

definition map_iteration :: "string list \<Rightarrow> Manager \<Rightarrow> bool" where
  "map_iteration order e = (distinct order \<and> set order = dom e)"

definition Manager_ToSlice :: "string list \<Rightarrow> Manager \<Rightarrow> string list" where
  "Manager_ToSlice order e =
     concat (map (\<lambda>k. case e k of Some v \<Rightarrow> [k @ ''='' @ v] | None \<Rightarrow> []) order)"

text \<open>
  \<open>strings.SplitN(kv, "=", 2)\<close>: two parts, cut at the first \<open>=\<close>, or the whole text as a
  single part (here \<open>None\<close>) when there is no \<open>=\<close>.
\<close>

definition SplitN2 :: "string \<Rightarrow> (string \<times> string) option" where
  "SplitN2 kv =
     (if CHR ''='' \<in> set kv
      then Some (takeWhile (\<lambda>c. c \<noteq> CHR ''='') kv, tl (dropWhile (\<lambda>c. c \<noteq> CHR ''='') kv))
      else None)"

text \<open>
  \<open>mergedEnv.ToSlice\<close>: the layers are visited from the last to the first; an entry is
  appended when its key has not been seen; the result is reversed at the end.  \<open>orders\<close>
  gives the iteration order of each layer.
\<close>

definition add_unseen :: "string \<Rightarrow> string list \<times> string list \<Rightarrow> string list \<times> string list" where
  "add_unseen kv st =
     (case SplitN2 kv of
        Some (key, v) \<Rightarrow>
          if key \<notin> set (snd st) then (fst st @ [kv], key # snd st) else st
      | None \<Rightarrow> st)"

definition mergedEnv_ToSlice :: "string list list \<Rightarrow> mergedEnv \<Rightarrow> string list" where
  "mergedEnv_ToSlice orders m =
     rev (fst (fold (\<lambda>(order, env) st. fold add_unseen (Manager_ToSlice order env) st)
                 (rev (zip orders m)) ([], [])))"

text \<open>
  The key of a snapshot entry, as \<open>mergedEnv.ToSlice\<close> reads it, and the invariant of its
  loop: the result holds one entry for each key in \<open>seen\<close> and none for any other key.
\<close>

definition entry_key :: "string \<Rightarrow> string option" where
  "entry_key kv = map_option fst (SplitN2 kv)"

definition seen_inv :: "string list \<times> string list \<Rightarrow> bool" where
  "seen_inv st =
     (\<forall>k. length (filter (\<lambda>kv. entry_key kv = Some k) (fst st)) = (if k \<in> set (snd st) then 1 else 0))"

section \<open>Library functions on paths and strings\<close>

text \<open>
  The functions of Go's \<open>path/filepath\<close> and \<open>strings\<close> that the toolchain binding and the
  environment derivation call, for Unix paths (separator \<open>/\<close>, no volume names), after the
  documentation of the standard library.
\<close>

fun split_on :: "char \<Rightarrow> string \<Rightarrow> string \<Rightarrow> string list" where
  "split_on sep [] cur = [cur]"
| "split_on sep (c # cs) cur =
     (if c = sep then cur # split_on sep cs [] else split_on sep cs (cur @ [c]))"

fun join_with :: "string \<Rightarrow> string list \<Rightarrow> string" where
  "join_with sep [] = []"
| "join_with sep [x] = x"
| "join_with sep (x # y # xs) = x @ sep @ join_with sep (y # xs)"

text \<open>
  \<open>filepath.Clean\<close>: multiple separators count as one; \<open>.\<close> elements are dropped; an inner
  \<open>..\<close> element removes the element before it; a \<open>..\<close> at the start of a rooted path is
  dropped and one at the start of a relative path is kept; the empty result is \<open>.\<close>.
\<close>

definition clean_step :: "bool \<Rightarrow> string \<Rightarrow> string list \<Rightarrow> string list" where
  "clean_step rooted elem out =
     (if elem = ''..'' then
        (if out \<noteq> [] \<and> last out \<noteq> ''..'' then butlast out
         else if \<not> rooted then out @ [''..'']
         else out)
      else out @ [elem])"

definition filepath_Clean :: "string \<Rightarrow> string" where
  "filepath_Clean path =
     (if path = [] then ''.''
      else
        let rooted = (hd path = CHR ''/'');
            elems = filter (\<lambda>e. e \<noteq> [] \<and> e \<noteq> ''.'') (split_on (CHR ''/'') path []);
            out = (if rooted then ''/'' else []) @
                    join_with ''/'' (fold (clean_step rooted) elems [])
        in if out = [] then ''.'' else out)"

text \<open>
  \<open>filepath.Join\<close>: the elements from the first non-empty one on are joined with \<open>/\<close> and
  the result is cleaned; when all elements are empty the result is empty.
\<close>

definition filepath_Join :: "string list \<Rightarrow> string" where
  "filepath_Join elem =
     (case dropWhile (\<lambda>e. e = []) elem of
        [] \<Rightarrow> []
      | e # es \<Rightarrow> filepath_Clean (join_with ''/'' (e # es)))"

text \<open>
  \<open>filepath.Abs\<close>: an absolute path is cleaned; a relative one is joined to the working
  directory, here the parameter \<open>wd\<close> (\<open>None\<close> when \<open>os.Getwd\<close> fails).
\<close>

definition filepath_Abs :: "string option \<Rightarrow> string \<Rightarrow> string option" where
  "filepath_Abs wd path =
     (if path \<noteq> [] \<and> hd path = CHR ''/'' then Some (filepath_Clean path)
      else (case wd of None \<Rightarrow> None | Some d \<Rightarrow> Some (filepath_Join [d, path])))"

text \<open>\<open>filepath.Dir\<close>: everything up to the last separator, cleaned.\<close>

definition filepath_Dir :: "string \<Rightarrow> string" where
  "filepath_Dir path = filepath_Clean (rev (dropWhile (\<lambda>c. c \<noteq> CHR ''/'') (rev path)))"

text \<open>
  \<open>strings.ToUpper\<close> on ASCII text (the names of the tools are ASCII); other bytes are
  left as they are.
\<close>

definition upper_char :: "char \<Rightarrow> char" where
  "upper_char c =
     (case map_of (zip ''abcdefghijklmnopqrstuvwxyz'' ''ABCDEFGHIJKLMNOPQRSTUVWXYZ'') c of
        Some u \<Rightarrow> u
      | None \<Rightarrow> c)"

definition ToUpper :: "string \<Rightarrow> string" where
  "ToUpper s = map upper_char s"

text \<open>\<open>strings.ReplaceAll\<close> of one character by another.\<close>

definition ReplaceAll_char :: "string \<Rightarrow> char \<Rightarrow> char \<Rightarrow> string" where
  "ReplaceAll_char s old new = map (\<lambda>c. if c = old then new else c) s"

section \<open>Configuration data (package config)\<close>

record Package =
  Name :: string
  URL :: string
  Build :: string
  Install :: string
  Clean :: string
  Env :: "string list"
  DependsOn :: "string list"
  PackagesFile :: string

record Toolchain =
  Toolchain_FilePath :: string
  Arch :: string
  Bin :: string
  Host :: string
  CrossPrefix :: string
  ExtraPrograms :: "string list"

record Config =
  FilePath :: string
  Toolchain :: Toolchain
  Packages :: "Package list"

section \<open>Toolchain binding (package env)\<close>

definition crossPrefixPrograms :: "string list" where
  "crossPrefixPrograms =
     [''ar'', ''as'', ''ld'', ''nm'', ''objcopy'', ''objdump'', ''ranlib'', ''strip'',
      ''addr2line'', ''c++filt'', ''dlltool'', ''elfedit'', ''gprof'', ''readelf'',
      ''size'', ''strings'', ''gcc'', ''g++'']"

text \<open>
  The map \<open>programAliases\<close>, as the list of its two entries.  The loop over it reads
  \<open>GCC\<close> and \<open>GXX\<close> and writes \<open>CC\<close> and \<open>CXX\<close>, so the order of the iteration does not
  matter (lemma \<open>alias_order_irrelevant\<close>).
\<close>

definition programAliases :: "(string \<times> string) list" where
  "programAliases = [(''cc'', ''gcc''), (''c++'', ''g++'')]"

definition toolToEnvVar :: "string \<Rightarrow> string" where
  "toolToEnvVar name =
     (let envVar = ToUpper name;
          envVar = ReplaceAll_char envVar (CHR ''-'') (CHR ''_'');
          envVar = ReplaceAll_char envVar (CHR ''+'') (CHR ''X'')
      in envVar)"

datatype toolchain_error = AbsFailed

definition set_alias :: "string \<times> string \<Rightarrow> Manager \<Rightarrow> Manager" where
  "set_alias at env =
     (case Manager_Get env (toolToEnvVar (snd at)) of
        Some targetPath \<Rightarrow> Manager_Set env (toolToEnvVar (fst at)) targetPath
      | None \<Rightarrow> env)"

definition UpdateEnvForToolchain ::
  "string option \<Rightarrow> Manager \<Rightarrow> Toolchain \<Rightarrow> toolchain_error + Manager" where
  "UpdateEnvForToolchain wd env0 toolchain =
     (let env = Manager_Set env0 ''FILE_DIR'' (filepath_Dir (Toolchain_FilePath toolchain)) in
      case (if Bin toolchain \<noteq> [] then filepath_Abs wd (Manager_Subst env (Bin toolchain))
            else Some (Bin toolchain)) of
        None \<Rightarrow> Inl AbsFailed
      | Some binPath \<Rightarrow>
          let crossPrefixPath = filepath_Join [binPath, Manager_Subst env (CrossPrefix toolchain)];
              env = (if CrossPrefix toolchain \<noteq> []
                     then Manager_Set env ''CROSS_PREFIX'' (Manager_Subst env (CrossPrefix toolchain))
                     else env);
              env = fold (\<lambda>prog env. Manager_Set env (toolToEnvVar prog) (crossPrefixPath @ prog))
                      crossPrefixPrograms env;
              env = fold set_alias programAliases env;
              env = fold (\<lambda>prog env. Manager_Set env (toolToEnvVar prog) (filepath_Join [binPath, prog]))
                      (ExtraPrograms toolchain) env
          in Inr env)"

section \<open>Recipe environment (packages env and build)\<close>

text \<open>
  The environment of the process, \<open>os.Environ\<close>, is a map from names to values;
  \<open>os.Getenv\<close> returns the empty string for a name that is not set.
\<close>

type_synonym process_env = "string \<rightharpoonup> string"

definition os_Getenv :: "process_env \<Rightarrow> string \<Rightarrow> string" where
  "os_Getenv penv key = (case penv key of Some v \<Rightarrow> v | None \<Rightarrow> [])"

definition NewManager :: "process_env \<Rightarrow> Manager" where
  "NewManager penv = Map.empty(''PATH'' \<mapsto> os_Getenv penv ''PATH'')"

definition Manager_Clone :: "Manager \<Rightarrow> Manager" where
  "Manager_Clone e = e"

text \<open>
  \<open>m.AddToEnv(other)\<close> sets every variable of \<open>m\<close> in \<open>other\<close>; the keys of a map are
  distinct, so the order of the iteration does not matter and \<open>other\<close> ends as \<open>other\<close>
  overridden by \<open>m\<close>.
\<close>

definition Manager_AddToEnv :: "Manager \<Rightarrow> Manager \<Rightarrow> Manager" where
  "Manager_AddToEnv m other = other ++ m"

text \<open>Decimal digits, for \<open>fmt.Sprintf("-j%d", makeJobs)\<close>.\<close>

function nat_digits :: "nat \<Rightarrow> string" where
  "nat_digits n =
     (if n < 10 then [''0123456789'' ! n]
      else nat_digits (n div 10) @ [''0123456789'' ! (n mod 10)])"
  by pat_completeness auto
termination
  by (relation "measure id") auto

definition Itoa :: "int \<Rightarrow> string" where
  "Itoa i = (if i < 0 then ''-'' @ nat_digits (nat (- i)) else nat_digits (nat i))"

definition set_package_var :: "string \<Rightarrow> Manager \<Rightarrow> Manager" where
  "set_package_var envVar env =
     (case SplitN2 envVar of
        Some (key, v) \<Rightarrow> Manager_Set env key (Manager_Subst env v)
      | None \<Rightarrow> env)"

definition Manager_EnvironmentForPackage ::
  "Manager \<Rightarrow> string \<Rightarrow> string list \<Rightarrow> string \<Rightarrow> int \<Rightarrow> Manager" where
  "Manager_EnvironmentForPackage e pkgName pkgEnv sysroot makeJobs =
     (let env = Manager_Clone e;
          env = Manager_Set env ''PKG_NAME'' pkgName;
          env = (if makeJobs > 0 then Manager_Set env ''MAKEFLAGS'' (''-j'' @ Itoa makeJobs)
                 else env);
          env = (if sysroot \<noteq> [] then
                   (let env = Manager_PrependToVar env ''PKG_CONFIG_PATH''
                                (filepath_Join [sysroot, ''usr'', ''lib'', ''pkgconfig'']) '':'';
                        env = Manager_Set env ''PKG_CONFIG_SYSROOT_DIR'' sysroot;
                        env = Manager_PrependToVar env ''CFLAGS''
                                (''-I'' @ sysroot @ ''/usr/include'') '' '';
                        env = Manager_PrependToVar env ''CXXFLAGS''
                                (''-I'' @ sysroot @ ''/usr/include'') '' '';
                        env = Manager_PrependToVar env ''LDFLAGS''
                                (''-L'' @ sysroot @ ''/usr/lib -L'' @ sysroot @ ''/lib'') '' '';
                        env = Manager_PrependToVar env ''LIBRARY_PATH''
                                (filepath_Join [sysroot, ''usr'', ''lib'']) '':'';
                        env = Manager_PrependToVar env ''LIBRARY_PATH''
                                (filepath_Join [sysroot, ''lib'']) '':'';
                        env = Manager_PrependToVar env ''LD_LIBRARY_PATH''
                                (filepath_Join [sysroot, ''usr'', ''lib'']) '':'';
                        env = Manager_PrependToVar env ''LD_LIBRARY_PATH''
                                (filepath_Join [sysroot, ''lib'']) '':''
                    in env)
                 else env)
      in fold set_package_var pkgEnv env)"

text \<open>\<open>Package.Subst\<close>: the fields of a package after substitution at the start of a build.\<close>

definition Package_Subst :: "Manager \<Rightarrow> Package \<Rightarrow> Package" where
  "Package_Subst env0 p =
     (let env = Manager_Clone env0;
          env = Manager_Set env ''PKG_NAME'' (Name p);
          env = Manager_Set env ''PKG_URL'' (URL p);
          env = Manager_Set env ''FILE_DIR'' (filepath_Dir (PackagesFile p))
      in p\<lparr>URL := Manager_Subst env (URL p),
           Build := Manager_Subst env (Build p),
           Install := Manager_Subst env (Install p),
           Clean := Manager_Subst env (Clean p),
           Env := map (Manager_Subst env) (Env p)\<rparr>)"

text \<open>
  The arguments of \<open>NewBuilder\<close> and the builder options that reach the environment.
\<close>

record builder_args =
  arg_cfg :: Config
  arg_buildDir :: string
  arg_sysroot :: string
  arg_host :: string
  arg_makepkgCmd :: string
  arg_MakeJobs :: int

text \<open>The manager that \<open>NewBuilder\<close> sets up and keeps as \<open>envManager\<close>.\<close>

definition builder_envManager :: "process_env \<Rightarrow> builder_args \<Rightarrow> Manager" where
  "builder_envManager penv a =
     (let envManager = NewManager penv;
          envManager = Manager_Set envManager ''PKGS_ROOT'' (filepath_Dir (FilePath (arg_cfg a)));
          envManager = Manager_Set envManager ''PKGS_ARCH'' (Arch (Toolchain (arg_cfg a)));
          envManager = Manager_Set envManager ''BUILD_DIR''
                         (Manager_Subst envManager (arg_buildDir a));
          envManager = Manager_Set envManager ''SYS_ROOT''
                         (Manager_Subst envManager (arg_sysroot a));
          envManager = Manager_Set envManager ''MAKEPKG'' (arg_makepkgCmd a);
          envManager = (if arg_host a \<noteq> []
                        then Manager_Set envManager ''PKGS_HOST''
                               (Manager_Subst envManager (arg_host a))
                        else envManager);
          envManager = Manager_Set envManager ''BUILD_ARTIFACTS''
                         (filepath_Join [arg_buildDir a, ''artifacts''])
      in envManager)"

text \<open>
  \<open>NewBuilder\<close> then calls \<open>cfg.Toolchain.Subst(envManager)\<close> and fills a second manager,
  \<open>toolEnv := env.NewManager()\<close>, with \<open>cfg.Toolchain.AddToEnv(toolEnv)\<close>.  These two
  methods of \<open>Toolchain\<close> are not among the sources; they are parameters here, \<open>tcSubst\<close>
  and \<open>tcAddToEnv\<close>, functions of the manager and the toolchain they are given.  The field
  \<open>Native\<close> that \<open>buildPackage\<close> reads is not in the declaration of \<open>Package\<close> either; it
  is the parameter \<open>native\<close>.
\<close>

definition builder_toolEnv ::
  "(Manager \<Rightarrow> Toolchain \<Rightarrow> Toolchain) \<Rightarrow> (Toolchain \<Rightarrow> Manager \<Rightarrow> Manager) \<Rightarrow>
   process_env \<Rightarrow> builder_args \<Rightarrow> Manager" where
  "builder_toolEnv tcSubst tcAddToEnv penv a =
     (let toolchain = tcSubst (builder_envManager penv a) (Toolchain (arg_cfg a));
          toolEnv = NewManager penv
      in tcAddToEnv toolchain toolEnv)"

text \<open>
  The environment of a recipe of \<open>pkg\<close>: \<open>Build\<close> substitutes the package fields,
  \<open>buildPackage\<close> derives \<open>pkgEnv\<close> and, unless the package is native, adds the tool
  variables; \<open>runScript\<close> receives \<open>pkgEnv.ToSlice()\<close>.
\<close>

definition recipe_env ::
  "(Manager \<Rightarrow> Toolchain \<Rightarrow> Toolchain) \<Rightarrow> (Toolchain \<Rightarrow> Manager \<Rightarrow> Manager) \<Rightarrow>
   process_env \<Rightarrow> builder_args \<Rightarrow> Package \<Rightarrow> bool \<Rightarrow> Manager" where
  "recipe_env tcSubst tcAddToEnv penv a pkg0 native =
     (let envManager = builder_envManager penv a;
          toolEnv = builder_toolEnv tcSubst tcAddToEnv penv a;
          pkg = Package_Subst envManager pkg0;
          pkgEnv = Manager_EnvironmentForPackage envManager (Name pkg) (Env pkg)
                     (arg_sysroot a) (arg_MakeJobs a);
          pkgEnv = (if \<not> native then Manager_AddToEnv toolEnv pkgEnv else pkgEnv)
      in pkgEnv)"

definition recipe_snapshot ::
  "(Manager \<Rightarrow> Toolchain \<Rightarrow> Toolchain) \<Rightarrow> (Toolchain \<Rightarrow> Manager \<Rightarrow> Manager) \<Rightarrow>
   string list \<Rightarrow> process_env \<Rightarrow> builder_args \<Rightarrow> Package \<Rightarrow> bool \<Rightarrow> string list" where
  "recipe_snapshot tcSubst tcAddToEnv order penv a pkg0 native =
     Manager_ToSlice order (recipe_env tcSubst tcAddToEnv penv a pkg0 native)"

text \<open>The variables that the builder and the derivation of \<open>pkgEnv\<close> set by name.\<close>

definition builder_vars :: "string set" where
  "builder_vars =
     {''PKGS_ROOT'', ''PKGS_ARCH'', ''BUILD_DIR'', ''SYS_ROOT'', ''MAKEPKG'', ''PKGS_HOST'',
      ''BUILD_ARTIFACTS'', ''PKG_NAME'', ''MAKEFLAGS'', ''PKG_CONFIG_PATH'',
      ''PKG_CONFIG_SYSROOT_DIR'', ''CFLAGS'', ''CXXFLAGS'', ''LDFLAGS'', ''LIBRARY_PATH'',
      ''LD_LIBRARY_PATH''}"

text \<open>The variables named by the entries \<open>KEY=VALUE\<close> of a package's \<open>env\<close> list.\<close>

definition package_vars :: "string list \<Rightarrow> string set" where
  "package_vars pkgEnv = {key. \<exists>envVar v. envVar \<in> set pkgEnv \<and> SplitN2 envVar = Some (key, v)}"

section \<open>Fingerprint cache (package cache)\<close>

text \<open>The persisted record \<open>Info\<close>, one JSON file \<open>makepkg.json\<close> per package.\<close>

record Info =
  Info_URL :: string
  Info_Build :: string
  Info_Install :: string
  Info_Env :: "string list"
  Info_Host :: string
  Info_Sysroot :: string

text \<open>
  What \<open>os.ReadFile\<close> followed by \<open>json.Unmarshal\<close> finds at a cache path: no file,
  a file that decodes to a record, or a file that cannot be read or decoded.
\<close>

datatype cache_file = NoFile | CacheFile Info | Unreadable

text \<open>The cache handle \<open>cache\<close> holds the build directory.\<close>

record cache =
  buildDir :: string

definition cacheFileName :: string where
  "cacheFileName = ''makepkg.json''"

definition sourceDir :: string where
  "sourceDir = ''source''"

text \<open>
  The paths every operation computes first: \<open>pkgDir := filepath.Join(c.buildDir, pkgName)\<close>,
  \<open>cachePath := filepath.Join(pkgDir, cacheFileName)\<close> and
  \<open>srcDir := filepath.Join(pkgDir, sourceDir)\<close>.  Two package names that clean to one
  directory (\<open>a\<close> and \<open>./a\<close>) share one cache file.
\<close>

definition pkgDir :: "cache \<Rightarrow> string \<Rightarrow> string" where
  "pkgDir c pkgName = filepath_Join [buildDir c, pkgName]"

definition cachePath :: "cache \<Rightarrow> string \<Rightarrow> string" where
  "cachePath c pkgName = filepath_Join [pkgDir c pkgName, cacheFileName]"

definition srcDir :: "cache \<Rightarrow> string \<Rightarrow> string" where
  "srcDir c pkgName = filepath_Join [pkgDir c pkgName, sourceDir]"

text \<open>
  The part of the file system the cache looks at, indexed by path: what is found at a cache
  path; whether \<open>os.Stat\<close> of a source directory reports that it does not exist; and how the
  operating system answers a write and a removal at a cache path.  \<open>writeFails\<close> is \<open>None\<close>
  when \<open>os.MkdirAll\<close> and \<open>os.WriteFile\<close> succeed and \<open>Some f\<close> when one of them fails,
  leaving \<open>f\<close> behind; \<open>removeFails\<close> holds when \<open>os.Remove\<close> fails with an error other than
  "does not exist".
\<close>

record build_tree =
  cacheFiles :: "string \<Rightarrow> cache_file"
  sourceMissing :: "string \<Rightarrow> bool"
  writeFails :: "string \<Rightarrow> cache_file option"
  removeFails :: "string \<Rightarrow> bool"

datatype cache_error =
    ReadFailed
  | ReadExistingFailed
  | WriteFailed
  | RemoveFailed
  | InvalidateFailed string

datatype reason =
    NoReason
  | NoCacheExists
  | URLChanged string string
  | BuildScriptChanged
  | InstallScriptChanged
  | EnvVarsChanged
  | HostChanged string string
  | SysrootChanged string string
  | SourceDirMissing

definition Read :: "cache \<Rightarrow> build_tree \<Rightarrow> string \<Rightarrow> cache_error + Info option" where
  "Read c t pkgName =
     (case cacheFiles t (cachePath c pkgName) of
        NoFile \<Rightarrow> Inr None
      | Unreadable \<Rightarrow> Inl ReadFailed
      | CacheFile c \<Rightarrow> Inr (Some c))"

definition emptyInfo :: Info where
  "emptyInfo = \<lparr>Info_URL = [], Info_Build = [], Info_Install = [], Info_Env = [],
                 Info_Host = [], Info_Sysroot = []\<rparr>"

text \<open>
  \<open>json.MarshalIndent\<close> writes a Go string as a JSON string literal.  The encoder
  (\<open>appendString\<close> of \<open>encoding/json\<close>) walks the bytes: a byte below \<open>utf8.RuneSelf\<close> is
  written as it is or escaped; otherwise \<open>utf8.DecodeRuneInString\<close> is called, and when it
  answers \<open>(RuneError, 1)\<close> the byte is replaced by the escape of U+FFFD and the walk moves
  on by one byte; a decoded rune is copied (or escaped) and the walk moves on by its size.
  Every escape decodes to the bytes it stands for, so the string that \<open>json.Unmarshal\<close> reads
  back is the source with every byte that starts no valid UTF-8 sequence replaced by the
  three bytes of U+FFFD.

  \<open>first_byte\<close> is the table \<open>first\<close> of \<open>unicode/utf8\<close> for the lead bytes of multi-byte
  sequences: the size of the sequence and the accepted range of the second byte.
\<close>

definition first_byte :: "nat \<Rightarrow> (nat \<times> nat \<times> nat) option" where
  "first_byte x =
     (if 0xC2 \<le> x \<and> x \<le> 0xDF then Some (2, 0x80, 0xBF)
      else if x = 0xE0 then Some (3, 0xA0, 0xBF)
      else if 0xE1 \<le> x \<and> x \<le> 0xEC then Some (3, 0x80, 0xBF)
      else if x = 0xED then Some (3, 0x80, 0x9F)
      else if 0xEE \<le> x \<and> x \<le> 0xEF then Some (3, 0x80, 0xBF)
      else if x = 0xF0 then Some (4, 0x90, 0xBF)
      else if 0xF1 \<le> x \<and> x \<le> 0xF3 then Some (4, 0x80, 0xBF)
      else if x = 0xF4 then Some (4, 0x80, 0x8F)
      else None)"

definition continuation_byte :: "char \<Rightarrow> bool" where
  "continuation_byte b = (0x80 \<le> (of_char b :: nat) \<and> (of_char b :: nat) \<le> 0xBF)"

text \<open>
  \<open>utf8.DecodeRuneInString\<close>, returning whether a rune was decoded and the size.  The
  answer \<open>(RuneError, 1)\<close> is \<open>(False, 1)\<close>; a well-formed U+FFFD has size 3, so the
  encoder's test \<open>c == utf8.RuneError && size == 1\<close> is the test that no rune was decoded.
  The bytes \<open>s[1]\<close>, \<open>s[2]\<close>, \<open>s[3]\<close> are read behind the length test \<open>n < sz\<close>; the
  branches for a missing byte are never reached.
\<close>

definition DecodeRuneInString :: "string \<Rightarrow> bool \<times> nat" where
  "DecodeRuneInString s =
     (case s of
        [] \<Rightarrow> (False, 0)
      | s0 # t1 \<Rightarrow>
          if (of_char s0 :: nat) < 0x80 then (True, 1)
          else
            (case first_byte (of_char s0) of
               None \<Rightarrow> (False, 1)
             | Some (sz, lo, hi) \<Rightarrow>
                 if length s < sz then (False, 1)
                 else
                   (case t1 of
                      [] \<Rightarrow> (False, 1)
                    | s1 # t2 \<Rightarrow>
                        if (of_char s1 :: nat) < lo \<or> hi < (of_char s1 :: nat) then (False, 1)
                        else if sz \<le> 2 then (True, 2)
                        else
                          (case t2 of
                             [] \<Rightarrow> (False, 1)
                           | s2 # t3 \<Rightarrow>
                               if \<not> continuation_byte s2 then (False, 1)
                               else if sz \<le> 3 then (True, 3)
                               else
                                 (case t3 of
                                    [] \<Rightarrow> (False, 1)
                                  | s3 # t4 \<Rightarrow>
                                      if \<not> continuation_byte s3 then (False, 1)
                                      else (True, 4))))))"

text \<open>The UTF-8 encoding of U+FFFD.\<close>

definition RuneError_bytes :: string where
  "RuneError_bytes = [CHR 0xEF, CHR 0xBF, CHR 0xBD]"

text \<open>
  The string read back from the JSON literal of \<open>src\<close>: the walk of the encoder, with the
  window \<open>src[i : i+n]\<close>, \<open>n \<le> utf8.UTFMax = 4\<close>, given to the decoder.
\<close>

function json_string :: "string \<Rightarrow> string" where
  "json_string [] = []"
| "json_string (b # src) =
     (if (of_char b :: nat) < 0x80 then b # json_string src
      else
        (case DecodeRuneInString (take 4 (b # src)) of
           (False, sz) \<Rightarrow> RuneError_bytes @ json_string src
         | (True, sz) \<Rightarrow> b # take (sz - 1) src @ json_string (drop (sz - 1) src)))"
  by pat_completeness auto
termination
  by (relation "measure length") auto

declare json_string.simps [simp del]

text \<open>The record read back from the file that \<open>json.MarshalIndent\<close> produces for a record.\<close>

definition json_Info :: "Info \<Rightarrow> Info" where
  "json_Info cache =
     \<lparr>Info_URL = json_string (Info_URL cache),
      Info_Build = json_string (Info_Build cache),
      Info_Install = json_string (Info_Install cache),
      Info_Env = map json_string (Info_Env cache),
      Info_Host = json_string (Info_Host cache),
      Info_Sysroot = json_string (Info_Sysroot cache)\<rparr>"

definition write_cache ::
  "cache \<Rightarrow> build_tree \<Rightarrow> string \<Rightarrow> Info \<Rightarrow> build_tree \<times> cache_error option" where
  "write_cache c t pkgName cache =
     (case writeFails t (cachePath c pkgName) of
        Some f \<Rightarrow> (t\<lparr>cacheFiles := (cacheFiles t)(cachePath c pkgName := f)\<rparr>, Some WriteFailed)
      | None \<Rightarrow>
          (t\<lparr>cacheFiles := (cacheFiles t)(cachePath c pkgName := CacheFile (json_Info cache))\<rparr>,
           None))"

definition WriteBuild ::
  "cache \<Rightarrow> build_tree \<Rightarrow> string \<Rightarrow> string \<Rightarrow> string \<Rightarrow> Package \<Rightarrow> build_tree \<times> cache_error option" where
  "WriteBuild c t pkgName sysroot host pkg =
     (case Read c t pkgName of
        Inl err \<Rightarrow> (t, Some ReadExistingFailed)
      | Inr r \<Rightarrow>
          let cache = (case r of None \<Rightarrow> emptyInfo | Some c \<Rightarrow> c);
              cache = cache\<lparr>Info_URL := URL pkg\<rparr>;
              cache = cache\<lparr>Info_Build := Build pkg\<rparr>;
              cache = cache\<lparr>Info_Env := Env pkg\<rparr>;
              cache = cache\<lparr>Info_Host := host\<rparr>;
              cache = cache\<lparr>Info_Sysroot := sysroot\<rparr>
          in write_cache c t pkgName cache)"

definition WriteInstall ::
  "cache \<Rightarrow> build_tree \<Rightarrow> string \<Rightarrow> string \<Rightarrow> string \<Rightarrow> Package \<Rightarrow> build_tree \<times> cache_error option" where
  "WriteInstall c t pkgName sysroot host pkg =
     (case Read c t pkgName of
        Inl err \<Rightarrow> (t, Some ReadExistingFailed)
      | Inr r \<Rightarrow>
          let cache = (case r of None \<Rightarrow> emptyInfo | Some c \<Rightarrow> c);
              cache = cache\<lparr>Info_Install := Install pkg\<rparr>;
              cache = cache\<lparr>Info_Env := Env pkg\<rparr>;
              cache = cache\<lparr>Info_Host := host\<rparr>;
              cache = cache\<lparr>Info_Sysroot := sysroot\<rparr>
          in write_cache c t pkgName cache)"

text \<open>
  (The method \<open>write\<close> of the cache is named \<open>write_cache\<close> here.)
  \<open>stringSlicesEqual\<close>: the length test, then the index loop.  The third equation of the
  loop is never reached behind the length test.
\<close>

fun slices_loop :: "string list \<Rightarrow> string list \<Rightarrow> bool" where
  "slices_loop [] b = True"
| "slices_loop (x # a) (y # b) = (if x \<noteq> y then False else slices_loop a b)"
| "slices_loop (x # a) [] = False"

definition stringSlicesEqual :: "string list \<Rightarrow> string list \<Rightarrow> bool" where
  "stringSlicesEqual a b = (if length a \<noteq> length b then False else slices_loop a b)"

definition checkCommonCacheChanges ::
  "Info \<Rightarrow> Package \<Rightarrow> string \<Rightarrow> string \<Rightarrow> bool \<times> reason" where
  "checkCommonCacheChanges cache pkg sysroot host =
     (if \<not> stringSlicesEqual (Info_Env cache) (Env pkg) then (True, EnvVarsChanged)
      else if Info_Host cache \<noteq> host then (True, HostChanged (Info_Host cache) host)
      else if Info_Sysroot cache \<noteq> sysroot
        then (True, SysrootChanged (Info_Sysroot cache) sysroot)
      else (False, NoReason))"

definition needsRebuildWithReason ::
  "cache \<Rightarrow> build_tree \<Rightarrow> Package \<Rightarrow> string \<Rightarrow> string \<Rightarrow> cache_error + (bool \<times> reason)" where
  "needsRebuildWithReason c t pkg sysroot host =
     (case Read c t (Name pkg) of
        Inl err \<Rightarrow> Inl err
      | Inr None \<Rightarrow> Inr (True, NoCacheExists)
      | Inr (Some cache) \<Rightarrow>
          if Info_URL cache \<noteq> URL pkg
            then Inr (True, URLChanged (Info_URL cache) (URL pkg))
          else if Info_Build cache \<noteq> Build pkg then Inr (True, BuildScriptChanged)
          else (case checkCommonCacheChanges cache pkg sysroot host of
                  (True, r) \<Rightarrow> Inr (True, r)
                | (False, r) \<Rightarrow>
                    if sourceMissing t (srcDir c (Name pkg)) then Inr (True, SourceDirMissing)
                    else Inr (False, NoReason)))"

definition NeedsRebuild ::
  "cache \<Rightarrow> build_tree \<Rightarrow> Package \<Rightarrow> string \<Rightarrow> string \<Rightarrow> cache_error + bool" where
  "NeedsRebuild c t pkg sysroot host =
     (case needsRebuildWithReason c t pkg sysroot host of
        Inl err \<Rightarrow> Inl err
      | Inr (needs, r) \<Rightarrow> Inr needs)"

definition Invalidate ::
  "cache \<Rightarrow> build_tree \<Rightarrow> string \<Rightarrow> build_tree \<times> cache_error option" where
  "Invalidate c t pkgName =
     (if removeFails t (cachePath c pkgName) then (t, Some RemoveFailed)
      else (t\<lparr>cacheFiles := (cacheFiles t)(cachePath c pkgName := NoFile)\<rparr>, None))"

text \<open>
  \<open>findDependents\<close>.  The map \<open>directDependents\<close> is filled by the two nested loops over the
  packages and their \<open>DependsOn\<close> lists; a key that was never written reads as the nil slice.
\<close>

definition directDependents :: "Package list \<Rightarrow> string \<Rightarrow> string list" where
  "directDependents pkgs =
     fold (\<lambda>pkg dd. fold (\<lambda>dep dd. dd(dep := dd dep @ [Name pkg])) (DependsOn pkg) dd)
       pkgs (\<lambda>dep. [])"

lemma directDependents_inner:
  "fold (\<lambda>dep dd. dd(dep := dd dep @ [n])) deps dd d =
     dd d @ map (\<lambda>x. n) (filter (\<lambda>x. x = d) deps)"
  by (induction deps arbitrary: dd) auto

lemma directDependents_outer:
  "fold (\<lambda>pkg dd. fold (\<lambda>dep dd. dd(dep := dd dep @ [Name pkg])) (DependsOn pkg) dd) pkgs dd d =
     dd d @ concat (map (\<lambda>pkg. map (\<lambda>x. Name pkg) (filter (\<lambda>x. x = d) (DependsOn pkg))) pkgs)"
  by (induction pkgs arbitrary: dd) (simp_all add: directDependents_inner)

lemma directDependents_eq:
  "directDependents pkgs d =
     concat (map (\<lambda>pkg. map (\<lambda>x. Name pkg) (filter (\<lambda>x. x = d) (DependsOn pkg))) pkgs)"
  by (simp add: directDependents_def directDependents_outer)

lemma set_directDependents:
  "set (directDependents pkgs d) = {Name p | p. p \<in> set pkgs \<and> d \<in> set (DependsOn p)}"
  by (auto simp: directDependents_eq)

lemma directDependents_names: "set (directDependents pkgs d) \<subseteq> Name ` set pkgs"
  by (auto simp: set_directDependents)

text \<open>
  The breadth-first loop of \<open>findDependents\<close>: \<open>visited\<close> is the set of keys of the Go map
  \<open>visited\<close> (all stored values are \<open>true\<close>), \<open>queue\<close> and \<open>result\<close> are the two slices.
\<close>

function bfs_loop ::
  "Package list \<Rightarrow> string list \<Rightarrow> string list \<Rightarrow> string list \<Rightarrow> string list" where
  "bfs_loop pkgs visited [] result = result"
| "bfs_loop pkgs visited (current # queue) result =
     (if current \<in> set visited then bfs_loop pkgs visited queue result
      else
        let visited' = current # visited;
            new = filter (\<lambda>dep. dep \<notin> set visited') (directDependents pkgs current)
        in bfs_loop pkgs visited' (queue @ new) (result @ new))"
  by pat_completeness auto
termination
proof (relation "measures [\<lambda>(pkgs, visited, queue, result).
                              card ((set queue \<union> Name ` set pkgs) - set visited),
                           \<lambda>(pkgs, visited, queue, result). length queue]")
  show "wf (measures [\<lambda>(pkgs, visited, queue, result).
                              card ((set queue \<union> Name ` set pkgs) - set visited),
                           \<lambda>(pkgs, visited, queue, result). length queue])"
    by simp
next
  fix pkgs :: "Package list" and visited queue result :: "string list" and current :: string
  assume "current \<in> set visited"
  then have "(set queue \<union> Name ` set pkgs) - set visited =
             (set (current # queue) \<union> Name ` set pkgs) - set visited"
    by auto
  then show "((pkgs, visited, queue, result), (pkgs, visited, current # queue, result))
      \<in> measures [\<lambda>(pkgs, visited, queue, result).
                              card ((set queue \<union> Name ` set pkgs) - set visited),
                           \<lambda>(pkgs, visited, queue, result). length queue]"
    by simp
next
  fix pkgs :: "Package list" and visited queue result x xa :: "string list"
    and current :: string
  assume nv: "current \<notin> set visited"
    and x: "x = current # visited"
    and xa: "xa = filter (\<lambda>dep. dep \<notin> set x) (directDependents pkgs current)"
  let ?U = "(set (current # queue) \<union> Name ` set pkgs) - set visited"
  let ?U' = "(set (queue @ xa) \<union> Name ` set pkgs) - set x"
  have "set xa \<subseteq> Name ` set pkgs"
    using directDependents_names [of pkgs current] by (auto simp: xa)
  then have sub: "?U' \<subseteq> ?U - {current}"
    by (auto simp: x)
  have fin: "finite ?U" by simp
  have "current \<in> ?U" using nv by simp
  then have "?U - {current} \<subset> ?U" by auto
  with sub have "?U' \<subset> ?U" by blast
  then have "card ?U' < card ?U"
    using fin by (rule psubset_card_mono [rotated])
  then show "((pkgs, x, queue @ xa, result @ xa), (pkgs, visited, current # queue, result))
      \<in> measures [\<lambda>(pkgs, visited, queue, result).
                              card ((set queue \<union> Name ` set pkgs) - set visited),
                           \<lambda>(pkgs, visited, queue, result). length queue]"
    by simp
qed

definition findDependents :: "string \<Rightarrow> Config \<Rightarrow> string list" where
  "findDependents pkgName cfg = bfs_loop (Packages cfg) [] [pkgName] []"

fun invalidate_each ::
  "cache \<Rightarrow> build_tree \<Rightarrow> string list \<Rightarrow> build_tree \<times> cache_error option" where
  "invalidate_each c t [] = (t, None)"
| "invalidate_each c t (dep # deps) =
     (case Invalidate c t dep of
        (t', Some err) \<Rightarrow> (t', Some (InvalidateFailed dep))
      | (t', None) \<Rightarrow> invalidate_each c t' deps)"

definition InvalidateDependents ::
  "cache \<Rightarrow> build_tree \<Rightarrow> string \<Rightarrow> Config \<Rightarrow> build_tree \<times> cache_error option" where
  "InvalidateDependents c t pkgName cfg = invalidate_each c t (findDependents pkgName cfg)"

text \<open>
  The reverse-dependency graph of a catalog: an edge from \<open>d\<close> to \<open>n\<close> when the package
  named \<open>n\<close> lists \<open>d\<close> in its \<open>DependsOn\<close>.
\<close>

definition dependents_rel :: "Package list \<Rightarrow> (string \<times> string) set" where
  "dependents_rel pkgs = {(d, n). \<exists>p. p \<in> set pkgs \<and> n = Name p \<and> d \<in> set (DependsOn p)}"

section \<open>Dependency resolver (package build)\<close>

text \<open>
  \<open>GetBuildOrder\<close> returns the levels or one of two errors: a package that depends on a
  package that is not defined, or a circular dependency.
\<close>

datatype resolve_error = MissingDependency string string | CircularDependency

text \<open>
  The first pair of loops: the first dependency, in the order of the catalog, that names
  no package of the catalog.
\<close>

definition check_dependencies :: "Package list \<Rightarrow> resolve_error option" where
  "check_dependencies pkgs =
     (case find (\<lambda>(name, dep). dep \<notin> set (map Name pkgs))
             (concat (map (\<lambda>pkg. map (\<lambda>dep. (Name pkg, dep)) (DependsOn pkg)) pkgs)) of
        Some (name, dep) \<Rightarrow> Some (MissingDependency name dep)
      | None \<Rightarrow> None)"

text \<open>
  The second loop fills the two maps: \<open>reverseGraph[dep]\<close> lists the packages that depend on
  \<open>dep\<close>, \<open>reverseInDegree[name]\<close> is the number of dependencies of \<open>name\<close>.
\<close>

definition reverse_maps :: "Package list \<Rightarrow> (string \<Rightarrow> string list) \<times> (string \<rightharpoonup> int)" where
  "reverse_maps pkgs =
     fold (\<lambda>pkg (reverseGraph, reverseInDegree).
             (fold (\<lambda>dep g. g(dep := g dep @ [Name pkg])) (DependsOn pkg) reverseGraph,
              reverseInDegree(Name pkg \<mapsto> int (length (DependsOn pkg)))))
       pkgs (\<lambda>dep. [], Map.empty)"

definition reverseGraph :: "Package list \<Rightarrow> string \<Rightarrow> string list" where
  "reverseGraph pkgs = fst (reverse_maps pkgs)"

definition reverseInDegree :: "Package list \<Rightarrow> string \<rightharpoonup> int" where
  "reverseInDegree pkgs = snd (reverse_maps pkgs)"

text \<open>
  Reading a key that is not in a Go map gives the zero value.  \<open>visit_dependent\<close> is the
  body of the innermost loop: decrement the counter of the dependent and append it to the
  new queue when the counter has reached zero.  \<open>process_level\<close> is the loop over the queue.
\<close>

definition degree_of :: "(string \<rightharpoonup> int) \<Rightarrow> string \<Rightarrow> int" where
  "degree_of deg n = (case deg n of Some d \<Rightarrow> d | None \<Rightarrow> 0)"

definition visit_dependent ::
  "string \<Rightarrow> (string \<rightharpoonup> int) \<times> string list \<Rightarrow> (string \<rightharpoonup> int) \<times> string list" where
  "visit_dependent dependent st =
     (let deg = (fst st)(dependent \<mapsto> degree_of (fst st) dependent - 1)
      in (deg, if degree_of deg dependent = 0 then snd st @ [dependent] else snd st))"

definition process_level ::
  "Package list \<Rightarrow> string list \<Rightarrow> (string \<rightharpoonup> int) \<Rightarrow> nat \<Rightarrow>
   (string \<rightharpoonup> int) \<times> string list \<times> nat" where
  "process_level pkgs queue deg processed =
     fold (\<lambda>name (deg, newQueue, processed).
             (case fold visit_dependent (reverseGraph pkgs name) (deg, newQueue) of
                (deg', newQueue') \<Rightarrow> (deg', newQueue', processed + 1)))
       queue (deg, [], processed)"

text \<open>
  The two maps, separately.  The graph is the map \<open>directDependents\<close> of the cache.
\<close>

lemma reverse_maps_fold:
  "fold (\<lambda>pkg (reverseGraph, reverseInDegree).
             (fold (\<lambda>dep g. g(dep := g dep @ [Name pkg])) (DependsOn pkg) reverseGraph,
              reverseInDegree(Name pkg \<mapsto> int (length (DependsOn pkg)))))
       pkgs (g, d) =
   (fold (\<lambda>pkg dd. fold (\<lambda>dep dd. dd(dep := dd dep @ [Name pkg])) (DependsOn pkg) dd) pkgs g,
    fold (\<lambda>pkg m. m(Name pkg \<mapsto> int (length (DependsOn pkg)))) pkgs d)"
  by (induction pkgs arbitrary: g d) simp_all

lemma reverseGraph_eq: "reverseGraph pkgs = directDependents pkgs"
  by (simp add: reverseGraph_def reverse_maps_def reverse_maps_fold directDependents_def)

lemma reverseInDegree_eq:
  "reverseInDegree pkgs = fold (\<lambda>pkg m. m(Name pkg \<mapsto> int (length (DependsOn pkg)))) pkgs Map.empty"
  by (simp add: reverseInDegree_def reverse_maps_def reverse_maps_fold)

text \<open>
  The packages whose counter is positive: the loop over the levels ends because this set
  shrinks whenever the new queue is not empty.
\<close>

definition positive :: "Package list \<Rightarrow> (string \<rightharpoonup> int) \<Rightarrow> string set" where
  "positive pkgs deg = {n. n \<in> Name ` set pkgs \<and> 0 < degree_of deg n}"

lemma visit_dependent_positive:
  assumes "visit_dependent x (deg, nq) = (deg', nq')"
  shows "positive pkgs deg' \<subseteq> positive pkgs deg"
    and "nq' \<noteq> nq \<Longrightarrow> x \<in> Name ` set pkgs \<Longrightarrow> positive pkgs deg' \<subset> positive pkgs deg"
    and "nq = [] \<or> nq' \<noteq> []"
proof -
  from assms have deg': "deg' = deg(x \<mapsto> degree_of deg x - 1)"
    and nq': "nq' = (if degree_of deg x - 1 = 0 then nq @ [x] else nq)"
    by (auto simp: visit_dependent_def Let_def degree_of_def)
  have other: "degree_of deg' n = degree_of deg n" if "n \<noteq> x" for n
    using that by (simp add: deg' degree_of_def)
  have self: "degree_of deg' x = degree_of deg x - 1"
    by (simp add: deg' degree_of_def)
  show sub: "positive pkgs deg' \<subseteq> positive pkgs deg"
  proof
    fix n assume "n \<in> positive pkgs deg'"
    then show "n \<in> positive pkgs deg"
      using other [of n] self by (cases "n = x") (auto simp: positive_def)
  qed
  show "positive pkgs deg' \<subset> positive pkgs deg" if "nq' \<noteq> nq" "x \<in> Name ` set pkgs"
  proof -
    from that(1) have "degree_of deg x = 1" using nq' by (auto split: if_splits)
    then have "x \<in> positive pkgs deg" "x \<notin> positive pkgs deg'"
      using that(2) self by (auto simp: positive_def)
    with sub show ?thesis by blast
  qed
  show "nq = [] \<or> nq' \<noteq> []" using nq' by auto
qed

lemma fold_visit_positive:
  assumes "fold visit_dependent xs (deg, nq) = (deg', nq')" and "set xs \<subseteq> Name ` set pkgs"
  shows "positive pkgs deg' \<subseteq> positive pkgs deg \<and>
         (nq' \<noteq> nq \<longrightarrow> positive pkgs deg' \<subset> positive pkgs deg) \<and>
         (nq = [] \<or> nq' \<noteq> [])"
  using assms
proof (induction xs arbitrary: deg nq)
  case Nil
  then show ?case by simp
next
  case (Cons x xs)
  obtain deg1 nq1 where v: "visit_dependent x (deg, nq) = (deg1, nq1)"
    by (cases "visit_dependent x (deg, nq)")
  note s = visit_dependent_positive(1,2) [OF v, where pkgs = pkgs]
    visit_dependent_positive(3) [OF v]
  from Cons.prems v have r: "fold visit_dependent xs (deg1, nq1) = (deg', nq')" by simp
  from Cons.prems have x: "x \<in> Name ` set pkgs" and xs: "set xs \<subseteq> Name ` set pkgs" by auto
  note ih = Cons.IH [OF r xs]
  show ?case
  proof (intro conjI impI)
    show "positive pkgs deg' \<subseteq> positive pkgs deg" using ih s(1) by blast
    show "nq = [] \<or> nq' \<noteq> []" using ih s(3) by blast
    assume ne: "nq' \<noteq> nq"
    show "positive pkgs deg' \<subset> positive pkgs deg"
    proof (cases "nq1 = nq")
      case True
      then show ?thesis using ih ne s(1) by blast
    next
      case False
      then show ?thesis using s(2) [OF False x] ih by blast
    qed
  qed
qed

lemma process_level_positive:
  assumes "process_level pkgs queue deg processed = (deg', nq', processed')"
  shows "positive pkgs deg' \<subseteq> positive pkgs deg \<and>
         (nq' \<noteq> [] \<longrightarrow> positive pkgs deg' \<subset> positive pkgs deg)"
proof -
  have gen: "fold (\<lambda>name (deg, newQueue, processed).
             (case fold visit_dependent (reverseGraph pkgs name) (deg, newQueue) of
                (deg', newQueue') \<Rightarrow> (deg', newQueue', processed + 1)))
       queue (d, nq, pr) = (deg', nq', processed') \<Longrightarrow>
     positive pkgs deg' \<subseteq> positive pkgs d \<and>
       (nq' \<noteq> nq \<longrightarrow> positive pkgs deg' \<subset> positive pkgs d) \<and> (nq = [] \<or> nq' \<noteq> [])"
    for d nq pr
  proof (induction queue arbitrary: d nq pr)
    case Nil
    then show ?case by simp
  next
    case (Cons name queue)
    obtain d1 nq1 where f: "fold visit_dependent (reverseGraph pkgs name) (d, nq) = (d1, nq1)"
      by (cases "fold visit_dependent (reverseGraph pkgs name) (d, nq)")
    have names: "set (reverseGraph pkgs name) \<subseteq> Name ` set pkgs"
      by (simp add: reverseGraph_eq directDependents_names)
    note s = fold_visit_positive [OF f names]
    from Cons.prems f have "fold (\<lambda>name (deg, newQueue, processed).
             (case fold visit_dependent (reverseGraph pkgs name) (deg, newQueue) of
                (deg', newQueue') \<Rightarrow> (deg', newQueue', processed + 1)))
       queue (d1, nq1, pr + 1) = (deg', nq', processed')"
      by simp
    note ih = Cons.IH [OF this]
    show ?case
    proof (intro conjI impI)
      show "positive pkgs deg' \<subseteq> positive pkgs d" using ih s by blast
      show "nq = [] \<or> nq' \<noteq> []" using ih s by blast
      assume ne: "nq' \<noteq> nq"
      show "positive pkgs deg' \<subset> positive pkgs d"
      proof (cases "nq1 = nq")
        case True
        then show ?thesis using ih ne s by blast
      next
        case False
        then show ?thesis using s ih by blast
      qed
    qed
  qed
  from gen [of deg "[]" processed] assms show ?thesis
    by (simp add: process_level_def)
qed

lemma level_loop_measure:
  assumes "(deg', y) = process_level pkgs queue deg processed" and "(newQueue, processed') = y"
  shows "(newQueue = [] \<longrightarrow> 2 * card (positive pkgs deg') < Suc (2 * card (positive pkgs deg))) \<and>
         (newQueue \<noteq> [] \<longrightarrow> card (positive pkgs deg') < card (positive pkgs deg))"
proof -
  from assms have p: "process_level pkgs queue deg processed = (deg', newQueue, processed')"
    by simp
  note s = process_level_positive [OF p]
  have fin: "finite (positive pkgs deg)" by (simp add: positive_def)
  have le: "card (positive pkgs deg') \<le> card (positive pkgs deg)"
    using s fin by (simp add: card_mono)
  have lt: "card (positive pkgs deg') < card (positive pkgs deg)" if "newQueue \<noteq> []"
    using s fin that by (simp add: psubset_card_mono)
  show ?thesis using le lt by auto
qed

text \<open>
  The loop \<open>for len(queue) > 0\<close>: the queue becomes a level, its nodes are processed, and
  the nodes whose counters reached zero form the next queue.
\<close>

function level_loop ::
  "Package list \<Rightarrow> (string \<rightharpoonup> int) \<Rightarrow> string list \<Rightarrow> string list list \<Rightarrow> nat \<Rightarrow>
   string list list \<times> nat" where
  "level_loop pkgs deg queue result processed =
     (if queue = [] then (result, processed)
      else
        (case process_level pkgs queue deg processed of
           (deg', newQueue, processed') \<Rightarrow>
             level_loop pkgs deg' newQueue (result @ [queue]) processed'))"
  by pat_completeness auto
termination
  apply (relation "measure (\<lambda>(pkgs, deg, queue, result, processed).
                    2 * card (positive pkgs deg) + (if queue = [] then 0 else 1))")
   apply simp
  apply simp
  apply (rule level_loop_measure; assumption)
  done

text \<open>
  \<open>GetBuildOrder\<close>.  The first queue is filled by ranging over the map
  \<open>reverseInDegree\<close>; \<open>order\<close> is the order that this iteration takes.
\<close>

definition GetBuildOrder :: "string list \<Rightarrow> Config \<Rightarrow> resolve_error + string list list" where
  "GetBuildOrder order cfg =
     (case check_dependencies (Packages cfg) of
        Some err \<Rightarrow> Inl err
      | None \<Rightarrow>
          let queue = filter (\<lambda>name. reverseInDegree (Packages cfg) name = Some 0) order
          in (case level_loop (Packages cfg) (reverseInDegree (Packages cfg)) queue [] 0 of
                (result, processed) \<Rightarrow>
                  if processed \<noteq> length (Packages cfg) then Inl CircularDependency
                  else Inr result))"

text \<open>
  The invariant of the loop over the levels, for the proof of the build order.  The names
  in \<open>result\<close> and \<open>queue\<close> are distinct names of the catalog; the counter of a package is
  the number of its dependencies that are not yet in \<open>result\<close>; the queue holds the packages
  outside \<open>result\<close> whose dependencies are all in \<open>result\<close>; and the dependencies of a package
  of level \<open>i\<close> lie in the levels before \<open>i\<close>.
\<close>

definition level_inv ::
  "Package list \<Rightarrow> (string \<rightharpoonup> int) \<Rightarrow> string list \<Rightarrow> string list list \<Rightarrow> bool" where
  "level_inv pkgs deg queue result =
     (distinct (concat result @ queue) \<and>
      set (concat result @ queue) \<subseteq> Name ` set pkgs \<and>
      (\<forall>p. p \<in> set pkgs \<longrightarrow>
         degree_of deg (Name p)
           = int (length (filter (\<lambda>d. d \<notin> set (concat result)) (DependsOn p)))) \<and>
      set queue = {n. \<exists>p. p \<in> set pkgs \<and> n = Name p \<and> n \<notin> set (concat result) \<and>
                         set (DependsOn p) \<subseteq> set (concat result)} \<and>
      (\<forall>i p. i < length result \<and> p \<in> set pkgs \<and> Name p \<in> set (result ! i) \<longrightarrow>
         set (DependsOn p) \<subseteq> set (concat (take i result))))"

section \<open>Example inputs\<close>

text \<open>Concrete catalogs and build trees on which the theorems below are instantiated.\<close>

definition example_pkg :: "string \<Rightarrow> string list \<Rightarrow> Package" where
  "example_pkg n deps =
     \<lparr>Name = n, URL = ''http://'' @ n, Build = ''make'', Install = ''make install'',
      Clean = [], Env = [], DependsOn = deps, PackagesFile = ''/pkgs/packages.yaml''\<rparr>"

definition example_toolchain :: Toolchain where
  "example_toolchain =
     \<lparr>Toolchain_FilePath = ''/pkgs/toolchain.yaml'', Arch = ''x86_64'', Bin = ''/opt/bin'',
      Host = [], CrossPrefix = [], ExtraPrograms = []\<rparr>"

definition example_cfg :: "Package list \<Rightarrow> Config" where
  "example_cfg pkgs =
     \<lparr>FilePath = ''/pkgs/packages.yaml'', Toolchain = example_toolchain, Packages = pkgs\<rparr>"

definition example_info :: "Package \<Rightarrow> Info" where
  "example_info pkg =
     \<lparr>Info_URL = URL pkg, Info_Build = Build pkg, Info_Install = Install pkg,
      Info_Env = Env pkg, Info_Host = ''x86_64-linux'', Info_Sysroot = ''/sysroot''\<rparr>"

definition example_cache :: cache where
  "example_cache = \<lparr>buildDir = ''/build''\<rparr>"

text \<open>A tree in which every listed package has been built and installed.\<close>

definition example_tree :: "Package list \<Rightarrow> build_tree" where
  "example_tree pkgs =
     \<lparr>cacheFiles = (\<lambda>path. case find (\<lambda>p. cachePath example_cache (Name p) = path) pkgs of
                               None \<Rightarrow> NoFile | Some p \<Rightarrow> CacheFile (example_info p)),
      sourceMissing = (\<lambda>path. False),
      writeFails = (\<lambda>path. None),
      removeFails = (\<lambda>path. False)\<rparr>"

text \<open>A tree in which the cache file of the package \<open>zlib\<close> is damaged.\<close>

definition example_corrupt_tree :: build_tree where
  "example_corrupt_tree =
     \<lparr>cacheFiles = (\<lambda>path. if path = ''/build/zlib/makepkg.json'' then Unreadable else NoFile),
      sourceMissing = (\<lambda>path. False),
      writeFails = (\<lambda>path. None),
      removeFails = (\<lambda>path. False)\<rparr>"

definition example_args :: builder_args where
  "example_args =
     \<lparr>arg_cfg = example_cfg [example_pkg ''zlib'' []], arg_buildDir = ''/build'',
      arg_sysroot = ''/sysroot'', arg_host = ''x86_64-linux'',
      arg_makepkgCmd = ''/usr/bin/makepkg --file=/pkgs/packages.yaml'', arg_MakeJobs = 4\<rparr>"

text \<open>A toolchain layer made of \<open>UpdateEnvForToolchain\<close>, for the examples.\<close>

definition example_tcAddToEnv :: "Toolchain \<Rightarrow> Manager \<Rightarrow> Manager" where
  "example_tcAddToEnv toolchain env =
     (case UpdateEnvForToolchain (Some ''/work'') env toolchain of
        Inl err \<Rightarrow> env
      | Inr env' \<Rightarrow> env')"

section \<open>Theorems\<close>

subsection \<open>Prepending to a variable\<close>

lemma PrependToVar_other_keys:
  "k \<noteq> key \<Longrightarrow> Manager_PrependToVar e key v sep k = e k"
  by (simp add: Manager_PrependToVar_def split: option.splits)

text \<open>
  Claim C8, as stated, says that \<open>prepend(key, value, separator)\<close> stores
  \<open>value + separator + current\<close> whenever the current value is non-empty.  The code tests
  \<open>strings.TrimSpace(existing) != ""\<close> instead: a current value made of white space only is
  non-empty, yet it is replaced by \<open>value\<close> alone.
\<close>

theorem C8_prepend_whitespace_counterexample:
  "[''K'' \<mapsto> '' ''] ''K'' = Some '' '' \<and> '' '' \<noteq> [] \<and>
   Manager_PrependToVar [''K'' \<mapsto> '' ''] ''K'' ''a'' '':'' ''K'' = Some ''a'' \<and>
   ''a'' \<noteq> ''a'' @ '':'' @ '' ''"
  by (simp add: Manager_PrependToVar_def TrimSpace_def unicode_space_encodings_def)

text \<open>
  Claim C8, amended: for every environment, key, value and separator,
  \<open>prepend(key, value, separator)\<close> sets \<open>key\<close> to \<open>value + separator + current\<close> when the key
  is present and its current value is not empty after trimming white space, and to \<open>value\<close>
  otherwise (absent key, empty value, or a value of white space only).
\<close>

theorem C8_prepend_amended:
  "Manager_PrependToVar e key v sep key =
     Some (if (\<exists>cur. e key = Some cur \<and> TrimSpace cur \<noteq> [])
           then v @ sep @ the (e key) else v)"
  by (simp add: Manager_PrependToVar_def split: option.splits)

subsection \<open>Substitution\<close>

lemma match_var_not_dollar: "c \<noteq> CHR ''$'' \<Longrightarrow> match_var (c # s) = None"
  by (simp add: match_var_def split: list.splits)

lemma takeWhile_until:
  "x \<notin> set xs \<Longrightarrow> takeWhile (\<lambda>c. c \<noteq> x) (xs @ x # ys) = xs"
  by (induction xs) auto

lemma dropWhile_until:
  "x \<notin> set xs \<Longrightarrow> dropWhile (\<lambda>c. c \<noteq> x) (xs @ x # ys) = x # ys"
  by (induction xs) auto

lemma dropWhile_close:
  "dropWhile (\<lambda>c. c \<noteq> x) r \<noteq> [] \<Longrightarrow>
     dropWhile (\<lambda>c. c \<noteq> x) r = x # tl (dropWhile (\<lambda>c. c \<noteq> x) r)"
  using hd_dropWhile [of "\<lambda>c. c \<noteq> x" r]
  by (cases "dropWhile (\<lambda>c. c \<noteq> x) r") auto

lemma match_var_dollar:
  "match_var (CHR ''$'' # s) = Some (name, rest) \<longleftrightarrow>
     (\<exists>r. s = CHR ''{'' # r \<and> name = takeWhile (\<lambda>c. c \<noteq> CHR ''}'') r \<and> name \<noteq> [] \<and>
          dropWhile (\<lambda>c. c \<noteq> CHR ''}'') r = CHR ''}'' # rest)"
proof (cases s)
  case Nil
  then show ?thesis by (simp add: match_var_def)
next
  case (Cons c r)
  have "CHR ''}'' \<in> set r" if "dropWhile (\<lambda>c. c \<noteq> CHR ''}'') r = CHR ''}'' # rest"
    using that set_dropWhileD [of "CHR ''}''" "\<lambda>c. c \<noteq> CHR ''}''" r] by simp
  then show ?thesis
    using dropWhile_close [of "CHR ''}''" r]
    by (auto simp: Cons match_var_def Let_def split: if_splits)
qed

lemma match_var_dollar_None:
  "match_var (CHR ''$'' # s) = None \<longleftrightarrow>
     (s = [] \<or> hd s \<noteq> CHR ''{'' \<or>
      (\<exists>r. s = CHR ''{'' # r \<and> (r = [] \<or> hd r = CHR ''}'' \<or> CHR ''}'' \<notin> set r)))"
proof (cases s)
  case Nil
  then show ?thesis by (simp add: match_var_def)
next
  case (Cons c r)
  have tw: "takeWhile (\<lambda>c. c \<noteq> CHR ''}'') r = [] \<longleftrightarrow> (r = [] \<or> hd r = CHR ''}'')"
    by (cases r) auto
  have dw: "dropWhile (\<lambda>c. c \<noteq> CHR ''}'') r = [] \<longleftrightarrow> CHR ''}'' \<notin> set r"
    by auto
  show ?thesis
    by (auto simp: Cons match_var_def Let_def tw dw)
qed

lemma subst_with_no_close: "CHR ''}'' \<notin> set s \<Longrightarrow> subst_with lookup s = s"
proof (induction s)
  case Nil
  then show ?case by simp
next
  case (Cons c s)
  have "match_var (c # s) = None"
  proof (cases "c = CHR ''$''")
    case True
    then show ?thesis using Cons.prems by (cases s) (auto simp: match_var_dollar_None)
  next
    case False
    then show ?thesis by (rule match_var_not_dollar)
  qed
  then show ?case using Cons by simp
qed

lemma subst_with_inert_prefix:
  "no_dollar_brace v \<Longrightarrow> subst_with lookup (v @ t) = v @ subst_with lookup t"
proof (induction v rule: no_dollar_brace.induct)
  case 1
  then show ?case by simp
next
  case (2 c)
  then show ?case by (simp add: match_var_not_dollar)
next
  case (3 c d s)
  have "match_var (c # d # s @ t) = None"
  proof (cases "c = CHR ''$''")
    case True
    then show ?thesis using "3.prems" by (simp add: match_var_dollar_None)
  next
    case False
    then show ?thesis by (rule match_var_not_dollar)
  qed
  then show ?case using 3 by simp
qed

lemma subst_with_head:
  assumes "\<forall>k v. lookup k = Some v \<longrightarrow> inert_value v"
    and "s \<noteq> [] \<longrightarrow> hd s \<noteq> CHR ''{''"
  shows "subst_with lookup s \<noteq> [] \<longrightarrow> hd (subst_with lookup s) \<noteq> CHR ''{''"
proof (cases s)
  case Nil
  then show ?thesis by simp
next
  case (Cons c cs)
  show ?thesis
  proof (cases "match_var (c # cs)")
    case None
    then show ?thesis using assms(2) Cons by simp
  next
    case (Some a)
    obtain name rest where a: "a = (name, rest)" by (cases a)
    show ?thesis
    proof (cases "lookup name")
      case None
      then show ?thesis using Some Cons a by simp
    next
      case (Some v)
      then have "inert_value v" using assms(1) by blast
      then show ?thesis using Some \<open>match_var (c # cs) = Some a\<close> Cons a
        by (simp add: inert_value_def)
    qed
  qed
qed

lemma subst_with_idem:
  assumes ok: "\<forall>k v. lookup k = Some v \<longrightarrow> inert_value v"
  shows "subst_with lookup (subst_with lookup s) = subst_with lookup s"
  using ok
proof (induction lookup s rule: subst_with.induct)
  case (1 lookup)
  then show ?case by simp
next
  case (2 lookup c s)
  note inert = "2.prems" and hyp = "2.IH"
  show ?case
  proof (cases "match_var (c # s)")
    case None
    have "match_var (c # subst_with lookup s) = None"
    proof (cases "c = CHR ''$''")
      case False
      then show ?thesis by (rule match_var_not_dollar)
    next
      case True
      from None True consider "s = []" | "s \<noteq> []" "hd s \<noteq> CHR ''{''"
        | r where "s = CHR ''{'' # r" "r = [] \<or> hd r = CHR ''}'' \<or> CHR ''}'' \<notin> set r"
        by (auto simp: match_var_dollar_None)
      then show ?thesis
      proof cases
        case 1
        then show ?thesis using True by (simp add: match_var_dollar_None)
      next
        case 2
        then have "subst_with lookup s \<noteq> [] \<longrightarrow> hd (subst_with lookup s) \<noteq> CHR ''{''"
          using subst_with_head [OF inert] by blast
        then show ?thesis using True by (auto simp: match_var_dollar_None)
      next
        case 3
        have s': "subst_with lookup s = CHR ''{'' # subst_with lookup r"
          by (simp add: 3(1) match_var_not_dollar)
        have "subst_with lookup r = [] \<or> hd (subst_with lookup r) = CHR ''}'' \<or>
              CHR ''}'' \<notin> set (subst_with lookup r)"
        proof -
          consider "r = []" | "r \<noteq> []" "hd r = CHR ''}''" | "CHR ''}'' \<notin> set r"
            using 3(2) by blast
          then show ?thesis
          proof cases
            case 1
            then show ?thesis by simp
          next
            case 2
            then obtain r' where "r = CHR ''}'' # r'" by (cases r) auto
            then show ?thesis by (simp add: match_var_not_dollar)
          next
            case 3
            then show ?thesis by (simp add: subst_with_no_close)
          qed
        qed
        then show ?thesis using True by (simp add: s' match_var_dollar_None)
      qed
    qed
    then show ?thesis using None hyp(1) inert by simp
  next
    case (Some a)
    obtain name rest where a: "a = (name, rest)" by (cases a)
    note m = Some [unfolded a]
    have IH: "subst_with lookup (subst_with lookup rest) = subst_with lookup rest"
      using hyp(2) [OF m refl] inert by simp
    show ?thesis
    proof (cases "lookup name")
      case (Some v)
      then have "no_dollar_brace v" using inert by (auto simp: inert_value_def)
      then show ?thesis using m Some IH by (simp add: subst_with_inert_prefix)
    next
      case None
      from m have c: "c = CHR ''$''"
        using match_var_not_dollar [of c s] by auto
      from m obtain r where r: "s = CHR ''{'' # r" "name = takeWhile (\<lambda>c. c \<noteq> CHR ''}'') r"
          "name \<noteq> []" "dropWhile (\<lambda>c. c \<noteq> CHR ''}'') r = CHR ''}'' # rest"
        unfolding c match_var_dollar by blast
      have nc: "CHR ''}'' \<notin> set name"
        using r(2) by (auto dest: set_takeWhileD)
      have tw: "takeWhile (\<lambda>c. c \<noteq> CHR ''}'') (name @ CHR ''}'' # subst_with lookup rest) = name"
        using nc by (rule takeWhile_until)
      have dw: "dropWhile (\<lambda>c. c \<noteq> CHR ''}'') (name @ CHR ''}'' # subst_with lookup rest)
                  = CHR ''}'' # subst_with lookup rest"
        using nc by (rule dropWhile_until)
      have m': "match_var (CHR ''$'' # CHR ''{'' # name @ CHR ''}'' # subst_with lookup rest)
                  = Some (name, subst_with lookup rest)"
        unfolding match_var_dollar using tw dw r(3) by simp
      have "subst_with lookup (c # s) = CHR ''$'' # CHR ''{'' # name @ CHR ''}'' # subst_with lookup rest"
        using m None by simp
      then show ?thesis using m' None IH by simp
    qed
  qed
qed

text \<open>
  Claim C5, as stated, says that substitution is idempotent for every environment and
  every text.  Substitution is a single pass: a value that itself holds a reference is
  inserted as it is, and a second pass expands it.
\<close>

theorem C5_subst_not_idempotent_counterexample:
  "Manager_Subst [''A'' \<mapsto> ''${B}'', ''B'' \<mapsto> ''x''] ''${A}'' = ''${B}'' \<and>
   Manager_Subst [''A'' \<mapsto> ''${B}'', ''B'' \<mapsto> ''x'']
     (Manager_Subst [''A'' \<mapsto> ''${B}'', ''B'' \<mapsto> ''x''] ''${A}'') = ''x'' \<and>
   ''x'' \<noteq> ''${B}''"
  by (simp add: Manager_Subst_def Manager_Get_def match_var_def)

text \<open>
  Claim C5, amended: for every environment in which every stored value is non-empty, does
  not start with \<open>{\<close>, does not end with \<open>$\<close> and does not contain \<open>${\<close>, and for every
  text \<open>s\<close>, \<open>subst(subst(s)) = subst(s)\<close>.
\<close>

theorem C5_subst_idempotent_amended:
  assumes "\<forall>k v. e k = Some v \<longrightarrow> inert_value v"
  shows "Manager_Subst e (Manager_Subst e s) = Manager_Subst e s"
  unfolding Manager_Subst_def
  by (rule subst_with_idem) (use assms in \<open>simp add: Manager_Get_def\<close>)

text \<open>
  Claim C5, amended, on the environment \<open>CC = gcc\<close> and a text with a defined and an
  undefined reference.
\<close>

theorem C5_subst_idempotent_witness:
  "inert_value ''gcc'' \<and>
   Manager_Subst [''CC'' \<mapsto> ''gcc''] ''${CC} -c ${X}'' = ''gcc -c ${X}'' \<and>
   Manager_Subst [''CC'' \<mapsto> ''gcc''] (Manager_Subst [''CC'' \<mapsto> ''gcc''] ''${CC} -c ${X}'')
     = ''gcc -c ${X}''"
proof -
  have i: "inert_value ''gcc''" by (simp add: inert_value_def)
  then have h: "\<forall>k v. [''CC'' \<mapsto> ''gcc''] k = Some v \<longrightarrow> inert_value v"
    by (simp split: if_splits)
  have v: "Manager_Subst [''CC'' \<mapsto> ''gcc''] ''${CC} -c ${X}'' = ''gcc -c ${X}''"
    by (simp add: Manager_Subst_def Manager_Get_def match_var_def)
  have "Manager_Subst [''CC'' \<mapsto> ''gcc''] (Manager_Subst [''CC'' \<mapsto> ''gcc''] ''${CC} -c ${X}'')
     = ''gcc -c ${X}''"
    using C5_subst_idempotent_amended [OF h, of "''${CC} -c ${X}''"] by (simp only: v)
  with i v show ?thesis by blast
qed

text \<open>The same holds for the layered environment and for \<open>EnvSubst\<close>.\<close>

lemma mergedEnv_Subst_idem:
  assumes "\<forall>k v. mergedEnv_Get m k = Some v \<longrightarrow> inert_value v"
  shows "mergedEnv_Subst m (mergedEnv_Subst m s) = mergedEnv_Subst m s"
  unfolding mergedEnv_Subst_def using assms by (rule subst_with_idem)

lemma EnvSubst_Subst_idem:
  assumes "\<forall>k v. vars k = Some v \<longrightarrow> inert_value v"
  shows "EnvSubst_Subst vars (EnvSubst_Subst vars s) = EnvSubst_Subst vars s"
  unfolding EnvSubst_Subst_def using assms by (rule subst_with_idem)

subsection \<open>Snapshot of a layered environment\<close>

lemma SplitN2_entry: "CHR ''='' \<notin> set k \<Longrightarrow> SplitN2 (k @ CHR ''='' # v) = Some (k, v)"
  by (simp add: SplitN2_def takeWhile_until dropWhile_until)

lemma entry_key_entry: "CHR ''='' \<notin> set k \<Longrightarrow> entry_key (k @ CHR ''='' # v) = Some k"
  by (simp add: entry_key_def SplitN2_entry)

lemma add_unseen_cases:
  "add_unseen kv st =
     (case entry_key kv of
        Some key \<Rightarrow> if key \<notin> set (snd st) then (fst st @ [kv], key # snd st) else st
      | None \<Rightarrow> st)"
  by (simp add: add_unseen_def entry_key_def split: option.splits prod.splits)

lemma add_unseen_inv:
  assumes "seen_inv st"
  shows "seen_inv (add_unseen kv st)"
    and "set (snd (add_unseen kv st)) = set (snd st) \<union> set_option (entry_key kv)"
    and "set (fst (add_unseen kv st)) \<subseteq> insert kv (set (fst st))"
proof -
  show "seen_inv (add_unseen kv st)"
  proof (cases "entry_key kv")
    case None
    then show ?thesis using assms by (simp add: add_unseen_cases)
  next
    case (Some key)
    show ?thesis
    proof (cases "key \<in> set (snd st)")
      case True
      then show ?thesis using assms Some by (simp add: add_unseen_cases)
    next
      case False
      then show ?thesis using assms Some
        by (simp add: add_unseen_cases seen_inv_def)
    qed
  qed
  show "set (snd (add_unseen kv st)) = set (snd st) \<union> set_option (entry_key kv)"
    by (cases "entry_key kv") (auto simp: add_unseen_cases)
  show "set (fst (add_unseen kv st)) \<subseteq> insert kv (set (fst st))"
    by (cases "entry_key kv") (auto simp: add_unseen_cases)
qed

lemma fold_add_unseen_inv:
  assumes "seen_inv st"
  shows "seen_inv (fold add_unseen kvs st) \<and>
         set (snd (fold add_unseen kvs st)) = set (snd st) \<union> \<Union> (set_option ` entry_key ` set kvs) \<and>
         set (fst (fold add_unseen kvs st)) \<subseteq> set kvs \<union> set (fst st)"
  using assms
proof (induction kvs arbitrary: st)
  case Nil
  then show ?case by simp
next
  case (Cons kv kvs)
  note a = add_unseen_inv [OF Cons.prems, of kv]
  note ih = Cons.IH [OF a(1)]
  show ?case
    using ih a(2,3) by auto
qed

lemma fold_layers_flat:
  "fold (\<lambda>(order, env) st. fold add_unseen (Manager_ToSlice order env) st) ps st =
   fold add_unseen (concat (map (\<lambda>(order, env). Manager_ToSlice order env) ps)) st"
  by (induction ps arbitrary: st) (auto simp: case_prod_beta)

lemma mergedEnv_ToSlice_flat:
  "mergedEnv_ToSlice orders m =
     rev (fst (fold add_unseen
        (concat (map (\<lambda>(order, env). Manager_ToSlice order env) (rev (zip orders m))))
        ([], [])))"
  by (simp only: mergedEnv_ToSlice_def fold_layers_flat)

lemma set_Manager_ToSlice:
  "set (Manager_ToSlice order e) = {k @ CHR ''='' # v | k v. k \<in> set order \<and> e k = Some v}"
proof -
  have one: "(kv \<in> set (case e k of Some v \<Rightarrow> [k @ ''='' @ v] | None \<Rightarrow> [])) =
        (\<exists>v. e k = Some v \<and> kv = k @ CHR ''='' # v)" for kv k
    by (cases "e k") auto
  have "(kv \<in> set (Manager_ToSlice order e)) =
        (\<exists>k. k \<in> set order \<and> (\<exists>v. e k = Some v \<and> kv = k @ CHR ''='' # v))" for kv
    unfolding Manager_ToSlice_def set_concat set_map using one by blast
  then show ?thesis by blast
qed

lemma mergedEnv_Get_Some_iff:
  "(mergedEnv_Get m k \<noteq> None) = (\<exists>e. e \<in> set m \<and> e k \<noteq> None)"
  by (induction m) (auto simp: Manager_Get_def split: option.splits)


text \<open>All entries that the layers hand to the merge, and their keys.\<close>

lemma layer_entries:
  assumes "list_all2 map_iteration orders m"
  shows "set (concat (map (\<lambda>(order, env). Manager_ToSlice order env) (rev (zip orders m)))) =
         {k @ CHR ''='' # v | k v. \<exists>e. e \<in> set m \<and> e k = Some v}"
proof -
  have len: "length orders = length m" using assms by (rule list_all2_lengthD)
  have it: "map_iteration order env" if "(order, env) \<in> set (zip orders m)" for order env
    using assms that by (auto simp: list_all2_iff)
  have sndzip: "snd ` set (zip orders m) = set m"
    using len by (metis map_snd_zip set_map)
  show ?thesis
  proof (intro set_eqI iffI)
    fix kv
    assume "kv \<in> set (concat (map (\<lambda>(order, env). Manager_ToSlice order env) (rev (zip orders m))))"
    then obtain order env where z: "(order, env) \<in> set (zip orders m)"
      and kv: "kv \<in> set (Manager_ToSlice order env)"
      by auto
    from kv obtain k v where "kv = k @ CHR ''='' # v" "env k = Some v"
      by (auto simp: set_Manager_ToSlice)
    moreover have "env \<in> set m" using z by (rule set_zip_rightD)
    ultimately show "kv \<in> {k @ CHR ''='' # v | k v. \<exists>e. e \<in> set m \<and> e k = Some v}"
      by blast
  next
    fix kv
    assume "kv \<in> {k @ CHR ''='' # v | k v. \<exists>e. e \<in> set m \<and> e k = Some v}"
    then obtain k v e where kv: "kv = k @ CHR ''='' # v" and e: "e \<in> set m" "e k = Some v"
      by blast
    from e(1) sndzip obtain order where z: "(order, e) \<in> set (zip orders m)"
      by force
    have "k \<in> set order" using it [OF z] e(2) by (auto simp: map_iteration_def)
    then have "kv \<in> set (Manager_ToSlice order e)"
      using e(2) kv by (auto simp: set_Manager_ToSlice)
    then show "kv \<in> set (concat (map (\<lambda>(order, env). Manager_ToSlice order env) (rev (zip orders m))))"
      using z by auto
  qed
qed

text \<open>
  What the snapshot holds, whichever layer wins: for every layered environment whose keys
  contain no \<open>=\<close>, and whatever order the iteration over each layer's map takes, there is
  exactly one entry for every key that some layer defines (and none for any other key), and
  every entry is \<open>KEY=VALUE\<close> for a value that some layer holds for that key.
\<close>

lemma mergedEnv_ToSlice_entries:
  assumes its: "list_all2 map_iteration orders m"
    and keys: "\<forall>e k. e \<in> set m \<and> k \<in> dom e \<longrightarrow> CHR ''='' \<notin> set k"
  shows "length (filter (\<lambda>kv. map_option fst (SplitN2 kv) = Some key) (mergedEnv_ToSlice orders m))
           = (if mergedEnv_Get m key \<noteq> None then 1 else 0) \<and>
         (\<forall>kv. kv \<in> set (mergedEnv_ToSlice orders m) \<longrightarrow>
            (\<exists>e k v. e \<in> set m \<and> e k = Some v \<and> kv = k @ ''='' @ v))"
proof -
  let ?L = "concat (map (\<lambda>(order, env). Manager_ToSlice order env) (rev (zip orders m)))"
  let ?st = "fold add_unseen ?L ([], [])"
  have noeq: "CHR ''='' \<notin> set k" if "e \<in> set m" "e k = Some v" for e k v
    using keys that by (meson domI)
  have inv0: "seen_inv ([], [])" by (simp add: seen_inv_def)
  note f = fold_add_unseen_inv [OF inv0, of ?L]
  have L: "set ?L = {k @ CHR ''='' # v | k v. \<exists>e. e \<in> set m \<and> e k = Some v}"
    using its by (rule layer_entries)
  have keysL: "\<Union> (set_option ` entry_key ` set ?L) = {k. \<exists>e. e \<in> set m \<and> e k \<noteq> None}"
  proof (intro set_eqI iffI)
    fix k assume "k \<in> \<Union> (set_option ` entry_key ` set ?L)"
    then obtain kv where "kv \<in> set ?L" "entry_key kv = Some k" by auto
    then obtain k' v e where "kv = k' @ CHR ''='' # v" "e \<in> set m" "e k' = Some v"
      unfolding L by blast
    moreover from this have "entry_key kv = Some k'"
      using noeq by (simp add: entry_key_entry)
    ultimately show "k \<in> {k. \<exists>e. e \<in> set m \<and> e k \<noteq> None}"
      using \<open>entry_key kv = Some k\<close> by auto
  next
    fix k assume "k \<in> {k. \<exists>e. e \<in> set m \<and> e k \<noteq> None}"
    then obtain e v where e: "e \<in> set m" "e k = Some v" by auto
    then have "k @ CHR ''='' # v \<in> set ?L" unfolding L by blast
    moreover have "entry_key (k @ CHR ''='' # v) = Some k"
      using noeq e by (simp add: entry_key_entry)
    ultimately show "k \<in> \<Union> (set_option ` entry_key ` set ?L)"
      by force
  qed
  have seen: "set (snd ?st) = {k. \<exists>e. e \<in> set m \<and> e k \<noteq> None}"
    using f keysL by simp
  have slice: "mergedEnv_ToSlice orders m = rev (fst ?st)"
    by (rule mergedEnv_ToSlice_flat)
  have "length (filter (\<lambda>kv. entry_key kv = Some key) (fst ?st)) = (if key \<in> set (snd ?st) then 1 else 0)"
    using f by (simp add: seen_inv_def)
  then have one: "length (filter (\<lambda>kv. map_option fst (SplitN2 kv) = Some key) (mergedEnv_ToSlice orders m))
           = (if mergedEnv_Get m key \<noteq> None then 1 else 0)"
    unfolding slice seen mergedEnv_Get_Some_iff
    by (simp add: entry_key_def rev_filter [symmetric])
  have sub: "set (mergedEnv_ToSlice orders m) \<subseteq> set ?L"
    using f by (simp add: slice)
  have two: "\<forall>kv. kv \<in> set (mergedEnv_ToSlice orders m) \<longrightarrow>
            (\<exists>e k v. e \<in> set m \<and> e k = Some v \<and> kv = k @ ''='' @ v)"
  proof (intro allI impI)
    fix kv assume "kv \<in> set (mergedEnv_ToSlice orders m)"
    then have "kv \<in> {k @ CHR ''='' # v | k v. \<exists>e. e \<in> set m \<and> e k = Some v}"
      using sub L by blast
    then obtain k v e where "kv = k @ CHR ''='' # v" "e \<in> set m" "e k = Some v"
      by blast
    then show "\<exists>e k v. e \<in> set m \<and> e k = Some v \<and> kv = k @ ''='' @ v"
      by (intro exI [of _ e] exI [of _ k] exI [of _ v]) simp
  qed
  from one two show ?thesis by blast
qed

text \<open>
  Claim C4 at a key that two layers define.  \<open>mergedEnv.Get\<close> returns the value of the
  first (topmost) layer, and \<open>AddToEnv\<close> applies the layers last to first so that the first
  layer wins as well.  \<open>mergedEnv.ToSlice\<close> visits the layers from the last to the first
  and keeps the first entry it sees for a key, so the single entry of the key carries the
  value of the last layer: the snapshot disagrees with \<open>Get\<close>.
\<close>

theorem C4_snapshot_shadowed_key:
  "list_all2 map_iteration [[''K''], [''K'']] [[''K'' \<mapsto> ''top''], [''K'' \<mapsto> ''bottom'']] \<and>
   mergedEnv_Get [[''K'' \<mapsto> ''top''], [''K'' \<mapsto> ''bottom'']] ''K'' = Some ''top'' \<and>
   mergedEnv_ToSlice [[''K''], [''K'']] [[''K'' \<mapsto> ''top''], [''K'' \<mapsto> ''bottom'']]
     = [''K=bottom''] \<and>
   ''K=bottom'' \<noteq> ''K'' @ ''='' @ ''top''"
  by (simp add: map_iteration_def Manager_Get_def mergedEnv_ToSlice_def Manager_ToSlice_def
      add_unseen_def SplitN2_def)

text \<open>The count of entries on the same two layers.\<close>

lemma mergedEnv_ToSlice_entries_example:
  "length (filter (\<lambda>kv. map_option fst (SplitN2 kv) = Some ''K'')
     (mergedEnv_ToSlice [[''K''], [''K'']] [[''K'' \<mapsto> ''top''], [''K'' \<mapsto> ''bottom'']])) = 1"
proof -
  let ?m = "[[''K'' \<mapsto> ''top''], [''K'' \<mapsto> ''bottom'']]"
  have its: "list_all2 map_iteration [[''K''], [''K'']] ?m"
    by (simp add: map_iteration_def)
  have keys: "\<forall>e k. e \<in> set ?m \<and> k \<in> dom e \<longrightarrow> CHR ''='' \<notin> set k"
    by (auto split: if_splits)
  have get: "mergedEnv_Get ?m ''K'' \<noteq> None"
    by (simp add: Manager_Get_def)
  from mergedEnv_ToSlice_entries [OF its keys, of "''K''"] get
  show ?thesis by simp
qed

text \<open>
  Within one layer the entries come in the reverse of the order in which the runtime
  iterates the map: the same layer gives either sequence.
\<close>

lemma Manager_ToSlice_iteration_order:
  "map_iteration [''A'', ''B''] [''A'' \<mapsto> ''1'', ''B'' \<mapsto> ''2''] \<and>
   map_iteration [''B'', ''A''] [''A'' \<mapsto> ''1'', ''B'' \<mapsto> ''2''] \<and>
   mergedEnv_ToSlice [[''A'', ''B'']] [[''A'' \<mapsto> ''1'', ''B'' \<mapsto> ''2'']] = [''B=2'', ''A=1''] \<and>
   mergedEnv_ToSlice [[''B'', ''A'']] [[''A'' \<mapsto> ''1'', ''B'' \<mapsto> ''2'']] = [''A=1'', ''B=2'']"
  by (auto simp: map_iteration_def mergedEnv_ToSlice_def Manager_ToSlice_def
      add_unseen_def SplitN2_def)

subsection \<open>Toolchain binding\<close>

lemma toolToEnvVar_examples:
  "toolToEnvVar ''c++'' = ''CXX''" "toolToEnvVar ''addr2line'' = ''ADDR2LINE''"
  "toolToEnvVar ''cc'' = ''CC''" "toolToEnvVar ''gcc'' = ''GCC''" "toolToEnvVar ''g++'' = ''GXX''"
  "toolToEnvVar ''pkg-config'' = ''PKG_CONFIG''"
  by (simp_all add: toolToEnvVar_def ToUpper_def ReplaceAll_char_def upper_char_def)

lemma toolToEnvVar_crossPrefixPrograms:
  "map toolToEnvVar crossPrefixPrograms =
     [''AR'', ''AS'', ''LD'', ''NM'', ''OBJCOPY'', ''OBJDUMP'', ''RANLIB'', ''STRIP'',
      ''ADDR2LINE'', ''CXXFILT'', ''DLLTOOL'', ''ELFEDIT'', ''GPROF'', ''READELF'', ''SIZE'',
      ''STRINGS'', ''GCC'', ''GXX'']"
  by code_simp

lemma alias_order_irrelevant:
  "fold set_alias (rev programAliases) env = fold set_alias programAliases env"
  by (auto simp: programAliases_def set_alias_def toolToEnvVar_examples Manager_Get_def
      Manager_Set_def fun_upd_twist split: option.splits)

text \<open>
  With a cross prefix that is a plain name prefix the binding is as claim C7 describes it:
  the tools at \<open>join(bin, cross_prefix + T)\<close>, the aliases \<open>CC\<close> and \<open>CXX\<close> equal to \<open>GCC\<close>
  and \<open>GXX\<close>, an extra program at \<open>join(bin, P)\<close>.
\<close>

lemma toolchain_with_prefix_example:
  "(case UpdateEnvForToolchain (Some ''/work'') Map.empty
       (example_toolchain\<lparr>CrossPrefix := ''arm-'', ExtraPrograms := [''pkg-config'']\<rparr>) of
      Inl err \<Rightarrow> []
    | Inr env \<Rightarrow> map env [''AR'', ''GCC'', ''CC'', ''GXX'', ''CXX'', ''PKG_CONFIG'', ''CROSS_PREFIX''])
   = [Some ''/opt/bin/arm-ar'', Some ''/opt/bin/arm-gcc'', Some ''/opt/bin/arm-gcc'',
      Some ''/opt/bin/arm-g++'', Some ''/opt/bin/arm-g++'', Some ''/opt/bin/pkg-config'',
      Some ''arm-'']"
  by code_simp

text \<open>
  Claim C7 says that the binding sets \<open>envname(T)\<close> to \<open>join(bin, cross_prefix + T)\<close> for
  every standard tool \<open>T\<close>.  \<open>UpdateEnvForToolchain\<close> computes
  \<open>join(bin, cross_prefix) + T\<close> instead.  With \<open>bin = /opt/bin\<close> and an empty cross prefix
  the join drops the empty element, and the tool name is glued to the directory name:
  \<open>AR\<close> is \<open>/opt/binar\<close>, where the claim gives \<open>/opt/bin/ar\<close>; the alias \<open>CC\<close> copies the
  wrong path of \<open>gcc\<close>.
\<close>

theorem C7_toolchain_empty_prefix_paths:
  "Bin example_toolchain = ''/opt/bin'' \<and> CrossPrefix example_toolchain = [] \<and>
   (case UpdateEnvForToolchain (Some ''/work'') Map.empty example_toolchain of
      Inl err \<Rightarrow> None
    | Inr env \<Rightarrow> env (toolToEnvVar ''ar'')) = Some ''/opt/binar'' \<and>
   filepath_Join [Bin example_toolchain, CrossPrefix example_toolchain @ ''ar''] = ''/opt/bin/ar'' \<and>
   (case UpdateEnvForToolchain (Some ''/work'') Map.empty example_toolchain of
      Inl err \<Rightarrow> None
    | Inr env \<Rightarrow> env (toolToEnvVar ''cc'')) = Some ''/opt/bingcc''"
  by code_simp

subsection \<open>Inheritance from the process environment\<close>

lemma dom_Manager_Set: "dom (Manager_Set e k v) = insert k (dom e)"
  by (simp add: Manager_Set_def)

lemma dom_Manager_PrependToVar: "dom (Manager_PrependToVar e k v sep) = insert k (dom e)"
  by (auto simp: Manager_PrependToVar_def split: option.splits if_splits)

lemma dom_set_package_var:
  "dom (set_package_var envVar env) \<subseteq> dom env \<union> package_vars [envVar]"
  by (auto simp: set_package_var_def package_vars_def dom_Manager_Set split: option.splits)

lemma package_vars_Cons:
  "package_vars (x # xs) = package_vars [x] \<union> package_vars xs"
  by (auto simp: package_vars_def)

lemma dom_fold_set_package_var:
  "dom (fold set_package_var pkgEnv env) \<subseteq> dom env \<union> package_vars pkgEnv"
proof (induction pkgEnv arbitrary: env)
  case Nil
  then show ?case by simp
next
  case (Cons x xs)
  have "dom (fold set_package_var xs (set_package_var x env))
          \<subseteq> dom (set_package_var x env) \<union> package_vars xs"
    by (rule Cons.IH)
  also have "\<dots> \<subseteq> (dom env \<union> package_vars [x]) \<union> package_vars xs"
    using dom_set_package_var [of x env] by blast
  finally show ?case
    using package_vars_Cons [of x xs] by auto
qed

lemma dom_NewManager: "dom (NewManager penv) = {''PATH''}"
  by (simp add: NewManager_def)

lemma builder_vars_members:
  "''PKGS_ROOT'' \<in> builder_vars" "''PKGS_ARCH'' \<in> builder_vars" "''BUILD_DIR'' \<in> builder_vars"
  "''SYS_ROOT'' \<in> builder_vars" "''MAKEPKG'' \<in> builder_vars" "''PKGS_HOST'' \<in> builder_vars"
  "''BUILD_ARTIFACTS'' \<in> builder_vars" "''PKG_NAME'' \<in> builder_vars"
  "''MAKEFLAGS'' \<in> builder_vars" "''PKG_CONFIG_PATH'' \<in> builder_vars"
  "''PKG_CONFIG_SYSROOT_DIR'' \<in> builder_vars" "''CFLAGS'' \<in> builder_vars"
  "''CXXFLAGS'' \<in> builder_vars" "''LDFLAGS'' \<in> builder_vars"
  "''LIBRARY_PATH'' \<in> builder_vars" "''LD_LIBRARY_PATH'' \<in> builder_vars"
  by (simp_all add: builder_vars_def)

lemma dom_builder_envManager:
  "dom (builder_envManager penv a) \<subseteq> insert ''PATH'' builder_vars"
  by (simp add: builder_envManager_def Let_def dom_Manager_Set dom_NewManager
      builder_vars_members)

lemma dom_derived:
  "dom (Manager_EnvironmentForPackage e pkgName [] sysroot makeJobs) \<subseteq> dom e \<union> builder_vars"
  by (simp add: Manager_EnvironmentForPackage_def Let_def dom_Manager_Set
      dom_Manager_PrependToVar Manager_Clone_def builder_vars_members)

lemma Manager_EnvironmentForPackage_fold:
  "Manager_EnvironmentForPackage e pkgName pkgEnv sysroot makeJobs =
     fold set_package_var pkgEnv (Manager_EnvironmentForPackage e pkgName [] sysroot makeJobs)"
  by (simp add: Manager_EnvironmentForPackage_def Let_def)

lemma dom_Manager_EnvironmentForPackage:
  "dom (Manager_EnvironmentForPackage e pkgName pkgEnv sysroot makeJobs)
     \<subseteq> dom e \<union> builder_vars \<union> package_vars pkgEnv"
proof -
  have "dom (Manager_EnvironmentForPackage e pkgName pkgEnv sysroot makeJobs)
     \<subseteq> dom (Manager_EnvironmentForPackage e pkgName [] sysroot makeJobs) \<union> package_vars pkgEnv"
    by (subst Manager_EnvironmentForPackage_fold) (rule dom_fold_set_package_var)
  then show ?thesis
    using dom_derived [of e pkgName sysroot makeJobs] by blast
qed

lemma dom_recipe_env:
  "dom (recipe_env tcSubst tcAddToEnv penv a pkg native)
     \<subseteq> insert ''PATH'' builder_vars
        \<union> package_vars (Env (Package_Subst (builder_envManager penv a) pkg))
        \<union> (if native then {} else dom (builder_toolEnv tcSubst tcAddToEnv penv a))"
proof -
  let ?em = "builder_envManager penv a"
  let ?p = "Package_Subst ?em pkg"
  let ?pe = "Manager_EnvironmentForPackage ?em (Name ?p) (Env ?p) (arg_sysroot a) (arg_MakeJobs a)"
  have pe: "dom ?pe \<subseteq> insert ''PATH'' builder_vars \<union> package_vars (Env ?p)"
    using dom_Manager_EnvironmentForPackage [of ?em "Name ?p" "Env ?p" "arg_sysroot a" "arg_MakeJobs a"]
      dom_builder_envManager [of penv a]
    by blast
  show ?thesis
  proof (cases native)
    case True
    then show ?thesis using pe by (simp add: recipe_env_def Let_def)
  next
    case False
    then have "dom (recipe_env tcSubst tcAddToEnv penv a pkg native)
        = dom ?pe \<union> dom (builder_toolEnv tcSubst tcAddToEnv penv a)"
      by (auto simp: recipe_env_def Let_def Manager_AddToEnv_def)
    then show ?thesis using pe False by auto
  qed
qed

lemma NewManager_cong:
  "os_Getenv penv1 ''PATH'' = os_Getenv penv2 ''PATH'' \<Longrightarrow> NewManager penv1 = NewManager penv2"
  by (simp add: NewManager_def)

lemma recipe_env_cong:
  assumes "os_Getenv penv1 ''PATH'' = os_Getenv penv2 ''PATH''"
  shows "recipe_env tcSubst tcAddToEnv penv1 a pkg native
       = recipe_env tcSubst tcAddToEnv penv2 a pkg native"
proof -
  have m: "NewManager penv1 = NewManager penv2" using assms by (rule NewManager_cong)
  have em: "builder_envManager penv1 a = builder_envManager penv2 a"
    by (simp add: builder_envManager_def m)
  have te: "builder_toolEnv tcSubst tcAddToEnv penv1 a = builder_toolEnv tcSubst tcAddToEnv penv2 a"
    by (simp add: builder_toolEnv_def em m)
  show ?thesis by (simp add: recipe_env_def em te)
qed

text \<open>
  Claim C10: the manager is seeded with exactly the variable \<open>PATH\<close> of the process
  environment; every entry of the snapshot handed to a recipe is \<open>PATH\<close>, a variable set by
  name by the builder or the derivation of the package environment, a variable of the
  package's \<open>env\<close> list, or (for a package that is not native) a variable of the tool
  layer; and two process environments that agree on \<open>PATH\<close> give the same snapshot for
  every package, whatever else they hold.
\<close>

theorem C10_only_PATH_inherited:
  "dom (NewManager penv) = {''PATH''} \<and>
   NewManager penv ''PATH'' = Some (os_Getenv penv ''PATH'') \<and>
   (\<forall>kv. kv \<in> set (recipe_snapshot tcSubst tcAddToEnv order penv a pkg native) \<longrightarrow>
      (\<exists>k v. kv = k @ ''='' @ v \<and>
         recipe_env tcSubst tcAddToEnv penv a pkg native k = Some v \<and>
         (k = ''PATH'' \<or> k \<in> builder_vars \<or>
          k \<in> package_vars (Env (Package_Subst (builder_envManager penv a) pkg)) \<or>
          (\<not> native \<and> k \<in> dom (builder_toolEnv tcSubst tcAddToEnv penv a))))) \<and>
   (os_Getenv penv ''PATH'' = os_Getenv penv' ''PATH'' \<longrightarrow>
      recipe_snapshot tcSubst tcAddToEnv order penv a pkg native
        = recipe_snapshot tcSubst tcAddToEnv order penv' a pkg native)"
proof (intro conjI allI impI)
  show "dom (NewManager penv) = {''PATH''}" by (rule dom_NewManager)
  show "NewManager penv ''PATH'' = Some (os_Getenv penv ''PATH'')" by (simp add: NewManager_def)
next
  fix kv assume "kv \<in> set (recipe_snapshot tcSubst tcAddToEnv order penv a pkg native)"
  then have "kv \<in> {k @ CHR ''='' # v | k v.
      k \<in> set order \<and> recipe_env tcSubst tcAddToEnv penv a pkg native k = Some v}"
    unfolding recipe_snapshot_def set_Manager_ToSlice .
  then obtain k v where kv: "kv = k @ CHR ''='' # v"
    and v: "recipe_env tcSubst tcAddToEnv penv a pkg native k = Some v"
    by blast
  from v have "k \<in> dom (recipe_env tcSubst tcAddToEnv penv a pkg native)" by blast
  then have "k \<in> insert ''PATH'' builder_vars
        \<union> package_vars (Env (Package_Subst (builder_envManager penv a) pkg))
        \<union> (if native then {} else dom (builder_toolEnv tcSubst tcAddToEnv penv a))"
    using dom_recipe_env [of tcSubst tcAddToEnv penv a pkg native] by (rule subsetD [rotated])
  then have "k = ''PATH'' \<or> k \<in> builder_vars \<or>
          k \<in> package_vars (Env (Package_Subst (builder_envManager penv a) pkg)) \<or>
          (\<not> native \<and> k \<in> dom (builder_toolEnv tcSubst tcAddToEnv penv a))"
    by (cases native) (simp_all only: Un_iff insert_iff if_True if_False empty_iff, blast+)
  then show "\<exists>k v. kv = k @ ''='' @ v \<and>
         recipe_env tcSubst tcAddToEnv penv a pkg native k = Some v \<and>
         (k = ''PATH'' \<or> k \<in> builder_vars \<or>
          k \<in> package_vars (Env (Package_Subst (builder_envManager penv a) pkg)) \<or>
          (\<not> native \<and> k \<in> dom (builder_toolEnv tcSubst tcAddToEnv penv a)))"
    using kv v by (intro exI [of _ k] exI [of _ v]) simp
next
  assume same: "os_Getenv penv ''PATH'' = os_Getenv penv' ''PATH''"
  show "recipe_snapshot tcSubst tcAddToEnv order penv a pkg native
        = recipe_snapshot tcSubst tcAddToEnv order penv' a pkg native"
    unfolding recipe_snapshot_def
    by (simp only: recipe_env_cong [OF same, of tcSubst tcAddToEnv a pkg native])
qed

text \<open>
  Claim C10 on two process environments with the same \<open>PATH\<close> and different \<open>HOME\<close>, one
  of them with \<open>LD_PRELOAD\<close> set.
\<close>

theorem C10_only_PATH_inherited_witness:
  "os_Getenv [''PATH'' \<mapsto> ''/usr/bin'', ''HOME'' \<mapsto> ''/root''] ''PATH''
     = os_Getenv [''PATH'' \<mapsto> ''/usr/bin'', ''HOME'' \<mapsto> ''/home/u'', ''LD_PRELOAD'' \<mapsto> ''x.so'']
         ''PATH'' \<and>
   os_Getenv [''PATH'' \<mapsto> ''/usr/bin'', ''HOME'' \<mapsto> ''/root''] ''HOME''
     \<noteq> os_Getenv [''PATH'' \<mapsto> ''/usr/bin'', ''HOME'' \<mapsto> ''/home/u'', ''LD_PRELOAD'' \<mapsto> ''x.so'']
         ''HOME'' \<and>
   recipe_snapshot (\<lambda>env toolchain. toolchain) example_tcAddToEnv [''PATH'', ''CC'', ''PKG_NAME'']
       [''PATH'' \<mapsto> ''/usr/bin'', ''HOME'' \<mapsto> ''/root'']
       example_args (example_pkg ''zlib'' []) False
     = recipe_snapshot (\<lambda>env toolchain. toolchain) example_tcAddToEnv [''PATH'', ''CC'', ''PKG_NAME'']
       [''PATH'' \<mapsto> ''/usr/bin'', ''HOME'' \<mapsto> ''/home/u'', ''LD_PRELOAD'' \<mapsto> ''x.so'']
       example_args (example_pkg ''zlib'' []) False"
proof -
  let ?p1 = "[''PATH'' \<mapsto> ''/usr/bin'', ''HOME'' \<mapsto> ''/root'']"
  let ?p2 = "[''PATH'' \<mapsto> ''/usr/bin'', ''HOME'' \<mapsto> ''/home/u'', ''LD_PRELOAD'' \<mapsto> ''x.so'']"
  have same: "os_Getenv ?p1 ''PATH'' = os_Getenv ?p2 ''PATH''"
    by (simp add: os_Getenv_def)
  have other: "os_Getenv ?p1 ''HOME'' \<noteq> os_Getenv ?p2 ''HOME''"
    by (simp add: os_Getenv_def)
  from C10_only_PATH_inherited [where penv = ?p1 and penv' = ?p2
      and tcSubst = "\<lambda>env toolchain. toolchain" and tcAddToEnv = example_tcAddToEnv
      and order = "[''PATH'', ''CC'', ''PKG_NAME'']" and a = example_args
      and pkg = "example_pkg ''zlib'' []" and native = False] same
  have "recipe_snapshot (\<lambda>env toolchain. toolchain) example_tcAddToEnv [''PATH'', ''CC'', ''PKG_NAME'']
       ?p1 example_args (example_pkg ''zlib'' []) False
     = recipe_snapshot (\<lambda>env toolchain. toolchain) example_tcAddToEnv [''PATH'', ''CC'', ''PKG_NAME'']
       ?p2 example_args (example_pkg ''zlib'' []) False"
    by blast
  with same other show ?thesis by blast
qed

lemma example_snapshot:
  "recipe_snapshot (\<lambda>env toolchain. toolchain) example_tcAddToEnv [''PATH'', ''CC'', ''PKG_NAME'']
       [''PATH'' \<mapsto> ''/usr/bin'', ''HOME'' \<mapsto> ''/root'']
       example_args (example_pkg ''zlib'' []) False
     = [''PATH=/usr/bin'', ''CC=/opt/bingcc'', ''PKG_NAME=zlib'']"
  by code_simp

subsection \<open>The rebuild decision\<close>

lemma slices_loop_eq: "length a = length b \<Longrightarrow> slices_loop a b = (a = b)"
  by (induction a b rule: slices_loop.induct) auto

lemma stringSlicesEqual_iff: "stringSlicesEqual a b = (a = b)"
  by (auto simp: stringSlicesEqual_def slices_loop_eq)

lemma list_differs_iff:
  "(a \<noteq> b) = (length a \<noteq> length b \<or> (\<exists>i. i < length b \<and> a ! i \<noteq> b ! i))"
  by (auto simp: list_eq_iff_nth_eq)

lemma needsRebuildWithReason_eq:
  "needsRebuildWithReason c t pkg s h =
     (case cacheFiles t (cachePath c (Name pkg)) of
        Unreadable \<Rightarrow> Inl ReadFailed
      | NoFile \<Rightarrow> Inr (True, NoCacheExists)
      | CacheFile i \<Rightarrow>
          if Info_URL i \<noteq> URL pkg then Inr (True, URLChanged (Info_URL i) (URL pkg))
          else if Info_Build i \<noteq> Build pkg then Inr (True, BuildScriptChanged)
          else if Info_Env i \<noteq> Env pkg then Inr (True, EnvVarsChanged)
          else if Info_Host i \<noteq> h then Inr (True, HostChanged (Info_Host i) h)
          else if Info_Sysroot i \<noteq> s then Inr (True, SysrootChanged (Info_Sysroot i) s)
          else if sourceMissing t (srcDir c (Name pkg)) then Inr (True, SourceDirMissing)
          else Inr (False, NoReason))"
  by (simp add: needsRebuildWithReason_def Read_def checkCommonCacheChanges_def
      stringSlicesEqual_iff split: cache_file.splits)

lemma NeedsRebuild_True_iff:
  "(NeedsRebuild c t pkg s h = Inr True) =
     (cacheFiles t (cachePath c (Name pkg)) = NoFile \<or>
      (\<exists>i. cacheFiles t (cachePath c (Name pkg)) = CacheFile i \<and>
         (Info_URL i \<noteq> URL pkg \<or> Info_Build i \<noteq> Build pkg \<or> Info_Env i \<noteq> Env pkg \<or>
          Info_Host i \<noteq> h \<or> Info_Sysroot i \<noteq> s \<or> sourceMissing t (srcDir c (Name pkg)))))"
  by (auto simp: NeedsRebuild_def needsRebuildWithReason_eq split: cache_file.splits)

lemma NeedsRebuild_False_iff:
  "(NeedsRebuild c t pkg s h = Inr False) =
     (\<exists>i. cacheFiles t (cachePath c (Name pkg)) = CacheFile i \<and>
         Info_URL i = URL pkg \<and> Info_Build i = Build pkg \<and> Info_Env i = Env pkg \<and>
         Info_Host i = h \<and> Info_Sysroot i = s \<and> \<not> sourceMissing t (srcDir c (Name pkg)))"
  by (auto simp: NeedsRebuild_def needsRebuildWithReason_eq split: cache_file.splits)

lemma needsRebuild_reason:
  assumes "needsRebuildWithReason c t pkg s h = Inr (b, r)"
  shows "b = (r \<noteq> NoReason)"
    and "(r = NoCacheExists) = (cacheFiles t (cachePath c (Name pkg)) = NoFile)"
    and "cacheFiles t (cachePath c (Name pkg)) = CacheFile i \<Longrightarrow>
       ((r = URLChanged (Info_URL i) (URL pkg)) = (Info_URL i \<noteq> URL pkg)) \<and>
       ((r = BuildScriptChanged) = (Info_URL i = URL pkg \<and> Info_Build i \<noteq> Build pkg)) \<and>
       ((r = EnvVarsChanged) =
          (Info_URL i = URL pkg \<and> Info_Build i = Build pkg \<and> Info_Env i \<noteq> Env pkg)) \<and>
       ((r = HostChanged (Info_Host i) h) =
          (Info_URL i = URL pkg \<and> Info_Build i = Build pkg \<and> Info_Env i = Env pkg \<and>
           Info_Host i \<noteq> h)) \<and>
       ((r = SysrootChanged (Info_Sysroot i) s) =
          (Info_URL i = URL pkg \<and> Info_Build i = Build pkg \<and> Info_Env i = Env pkg \<and>
           Info_Host i = h \<and> Info_Sysroot i \<noteq> s)) \<and>
       ((r = SourceDirMissing) =
          (Info_URL i = URL pkg \<and> Info_Build i = Build pkg \<and> Info_Env i = Env pkg \<and>
           Info_Host i = h \<and> Info_Sysroot i = s \<and> sourceMissing t (srcDir c (Name pkg))))"
  using assms
  by (auto simp: needsRebuildWithReason_eq split: cache_file.splits if_splits)

text \<open>
  Claim C1: \<open>NeedsRebuild(pkg, s, h)\<close> reports that a rebuild is required exactly when
  there is no cache file, or the cached url differs, or the cached build recipe differs, or
  the cached env differs in length or in an element, or the cached host or sysroot differs,
  or the source directory is absent; the reason reported is that of the first of these
  tests, in this order, that applies.  An answer \<open>false\<close> means that a cache record exists
  whose url, build, env, host and sysroot equal those of the request and that the source
  directory is present.  (When the cache file cannot be read or decoded the function returns
  the error and no answer.)
\<close>

theorem C1_NeedsRebuild:
  "((NeedsRebuild c t pkg s h = Inr True) =
      (cacheFiles t (cachePath c (Name pkg)) = NoFile \<or>
       (\<exists>i. cacheFiles t (cachePath c (Name pkg)) = CacheFile i \<and>
          (Info_URL i \<noteq> URL pkg \<or> Info_Build i \<noteq> Build pkg \<or>
           length (Info_Env i) \<noteq> length (Env pkg) \<or>
           (\<exists>k. k < length (Env pkg) \<and> Info_Env i ! k \<noteq> Env pkg ! k) \<or>
           Info_Host i \<noteq> h \<or> Info_Sysroot i \<noteq> s \<or>
           sourceMissing t (srcDir c (Name pkg)))))) \<and>
   ((NeedsRebuild c t pkg s h = Inr False) =
      (\<exists>i. cacheFiles t (cachePath c (Name pkg)) = CacheFile i \<and>
          Info_URL i = URL pkg \<and> Info_Build i = Build pkg \<and> Info_Env i = Env pkg \<and>
          Info_Host i = h \<and> Info_Sysroot i = s \<and> \<not> sourceMissing t (srcDir c (Name pkg)))) \<and>
   (\<forall>b r. needsRebuildWithReason c t pkg s h = Inr (b, r) \<longrightarrow>
      NeedsRebuild c t pkg s h = Inr b \<and> b = (r \<noteq> NoReason) \<and>
      ((r = NoCacheExists) = (cacheFiles t (cachePath c (Name pkg)) = NoFile)) \<and>
      (\<forall>i. cacheFiles t (cachePath c (Name pkg)) = CacheFile i \<longrightarrow>
         ((r = URLChanged (Info_URL i) (URL pkg)) = (Info_URL i \<noteq> URL pkg)) \<and>
         ((r = BuildScriptChanged) = (Info_URL i = URL pkg \<and> Info_Build i \<noteq> Build pkg)) \<and>
         ((r = EnvVarsChanged) =
            (Info_URL i = URL pkg \<and> Info_Build i = Build pkg \<and> Info_Env i \<noteq> Env pkg)) \<and>
         ((r = HostChanged (Info_Host i) h) =
            (Info_URL i = URL pkg \<and> Info_Build i = Build pkg \<and> Info_Env i = Env pkg \<and>
             Info_Host i \<noteq> h)) \<and>
         ((r = SysrootChanged (Info_Sysroot i) s) =
            (Info_URL i = URL pkg \<and> Info_Build i = Build pkg \<and> Info_Env i = Env pkg \<and>
             Info_Host i = h \<and> Info_Sysroot i \<noteq> s)) \<and>
         ((r = SourceDirMissing) =
            (Info_URL i = URL pkg \<and> Info_Build i = Build pkg \<and> Info_Env i = Env pkg \<and>
             Info_Host i = h \<and> Info_Sysroot i = s \<and> sourceMissing t (srcDir c (Name pkg))))))"
proof (intro conjI allI impI)
  show "(NeedsRebuild c t pkg s h = Inr True) =
      (cacheFiles t (cachePath c (Name pkg)) = NoFile \<or>
       (\<exists>i. cacheFiles t (cachePath c (Name pkg)) = CacheFile i \<and>
          (Info_URL i \<noteq> URL pkg \<or> Info_Build i \<noteq> Build pkg \<or>
           length (Info_Env i) \<noteq> length (Env pkg) \<or>
           (\<exists>k. k < length (Env pkg) \<and> Info_Env i ! k \<noteq> Env pkg ! k) \<or>
           Info_Host i \<noteq> h \<or> Info_Sysroot i \<noteq> s \<or>
           sourceMissing t (srcDir c (Name pkg)))))"
    unfolding NeedsRebuild_True_iff
    using list_differs_iff [of _ "Env pkg"] by (metis (no_types, lifting))
  show "(NeedsRebuild c t pkg s h = Inr False) =
      (\<exists>i. cacheFiles t (cachePath c (Name pkg)) = CacheFile i \<and>
          Info_URL i = URL pkg \<and> Info_Build i = Build pkg \<and> Info_Env i = Env pkg \<and>
          Info_Host i = h \<and> Info_Sysroot i = s \<and> \<not> sourceMissing t (srcDir c (Name pkg)))"
    by (rule NeedsRebuild_False_iff)
next
  fix b r assume a: "needsRebuildWithReason c t pkg s h = Inr (b, r)"
  show "NeedsRebuild c t pkg s h = Inr b" using a by (simp add: NeedsRebuild_def)
  show "b = (r \<noteq> NoReason)" using a by (rule needsRebuild_reason(1))
  show "(r = NoCacheExists) = (cacheFiles t (cachePath c (Name pkg)) = NoFile)"
    using a by (rule needsRebuild_reason(2))
  fix i assume i: "cacheFiles t (cachePath c (Name pkg)) = CacheFile i"
  note r = needsRebuild_reason(3) [OF a i]
  show "(r = URLChanged (Info_URL i) (URL pkg)) = (Info_URL i \<noteq> URL pkg)"
    using r by blast
  show "(r = BuildScriptChanged) = (Info_URL i = URL pkg \<and> Info_Build i \<noteq> Build pkg)"
    using r by blast
  show "(r = EnvVarsChanged) =
            (Info_URL i = URL pkg \<and> Info_Build i = Build pkg \<and> Info_Env i \<noteq> Env pkg)"
    using r by blast
  show "(r = HostChanged (Info_Host i) h) =
            (Info_URL i = URL pkg \<and> Info_Build i = Build pkg \<and> Info_Env i = Env pkg \<and>
             Info_Host i \<noteq> h)"
    using r by blast
  show "(r = SysrootChanged (Info_Sysroot i) s) =
            (Info_URL i = URL pkg \<and> Info_Build i = Build pkg \<and> Info_Env i = Env pkg \<and>
             Info_Host i = h \<and> Info_Sysroot i \<noteq> s)"
    using r by blast
  show "(r = SourceDirMissing) =
            (Info_URL i = URL pkg \<and> Info_Build i = Build pkg \<and> Info_Env i = Env pkg \<and>
             Info_Host i = h \<and> Info_Sysroot i = s \<and> sourceMissing t (srcDir c (Name pkg)))"
    using r by blast
qed

text \<open>
  Claim C1 at a concrete input: a built package whose build recipe has been edited.  The
  reason is that of the first test that applies (the url is unchanged, the build differs).
\<close>

theorem C1_NeedsRebuild_witness:
  "needsRebuildWithReason example_cache
     (example_tree [example_pkg ''zlib'' []])
     ((example_pkg ''zlib'' [])\<lparr>Build := ''make -j2''\<rparr>) ''/sysroot'' ''x86_64-linux''
     = Inr (True, BuildScriptChanged) \<and>
   NeedsRebuild example_cache
     (example_tree [example_pkg ''zlib'' []])
     ((example_pkg ''zlib'' [])\<lparr>Build := ''make -j2''\<rparr>) ''/sysroot'' ''x86_64-linux''
     = Inr True \<and>
   cacheFiles (example_tree [example_pkg ''zlib'' []])
     (cachePath example_cache (Name ((example_pkg ''zlib'' [])\<lparr>Build := ''make -j2''\<rparr>)))
     = CacheFile (example_info (example_pkg ''zlib'' [])) \<and>
   Info_URL (example_info (example_pkg ''zlib'' []))
     = URL ((example_pkg ''zlib'' [])\<lparr>Build := ''make -j2''\<rparr>) \<and>
   Info_Build (example_info (example_pkg ''zlib'' []))
     \<noteq> Build ((example_pkg ''zlib'' [])\<lparr>Build := ''make -j2''\<rparr>)"
proof -
  let ?t = "example_tree [example_pkg ''zlib'' []]"
  let ?p = "(example_pkg ''zlib'' [])\<lparr>Build := ''make -j2''\<rparr>"
  have h: "needsRebuildWithReason example_cache ?t ?p ''/sysroot'' ''x86_64-linux''
             = Inr (True, BuildScriptChanged)"
    by (simp add: needsRebuildWithReason_eq example_tree_def example_info_def example_pkg_def)
  have c: "cacheFiles ?t (cachePath example_cache (Name ?p)) = CacheFile (example_info (example_pkg ''zlib'' []))"
    by (simp add: example_tree_def example_pkg_def)
  from C1_NeedsRebuild [of example_cache ?t ?p "''/sysroot''" "''x86_64-linux''"] h c
  have "NeedsRebuild example_cache ?t ?p ''/sysroot'' ''x86_64-linux'' = Inr True \<and>
        Info_URL (example_info (example_pkg ''zlib'' [])) = URL ?p \<and>
        Info_Build (example_info (example_pkg ''zlib'' [])) \<noteq> Build ?p"
    by blast
  with h c show ?thesis by blast
qed

subsection \<open>Transitive invalidation\<close>

lemma bfs_loop_sound:
  "x \<in> set (bfs_loop pkgs visited queue result) \<Longrightarrow>
   x \<in> set result \<or>
   (x \<notin> set visited \<and> (\<exists>q. q \<in> set queue \<and> (q, x) \<in> (dependents_rel pkgs)\<^sup>+))"
proof (induction pkgs visited queue result rule: bfs_loop.induct)
  case (1 pkgs visited result)
  then show ?case by simp
next
  case (2 pkgs visited current queue result)
  show ?case
  proof (cases "current \<in> set visited")
    case True
    with 2 show ?thesis by auto
  next
    case False
    define visited' where "visited' = current # visited"
    define new where "new = filter (\<lambda>dep. dep \<notin> set visited') (directDependents pkgs current)"
    have edge: "(current, n) \<in> dependents_rel pkgs" if "n \<in> set new" for n
      using that by (auto simp: new_def set_directDependents dependents_rel_def)
    have "x \<in> set (bfs_loop pkgs visited' (queue @ new) (result @ new))"
      using "2.prems" False by (simp add: visited'_def new_def Let_def)
    then have "x \<in> set (result @ new) \<or>
      (x \<notin> set visited' \<and> (\<exists>q. q \<in> set (queue @ new) \<and> (q, x) \<in> (dependents_rel pkgs)\<^sup>+))"
      using "2.IH"(2) [OF False visited'_def new_def] by blast
    then consider "x \<in> set result" | "x \<in> set new"
      | q where "x \<notin> set visited'" "q \<in> set queue" "(q, x) \<in> (dependents_rel pkgs)\<^sup>+"
      | q where "x \<notin> set visited'" "q \<in> set new" "(q, x) \<in> (dependents_rel pkgs)\<^sup>+"
      by auto
    then show ?thesis
    proof cases
      case 1
      then show ?thesis by simp
    next
      case 2
      then have "x \<notin> set visited" by (auto simp: new_def visited'_def)
      moreover have "(current, x) \<in> (dependents_rel pkgs)\<^sup>+" using edge [OF 2] by blast
      ultimately show ?thesis by auto
    next
      case 3
      then show ?thesis by (auto simp: visited'_def)
    next
      case 4
      have "(current, x) \<in> (dependents_rel pkgs)\<^sup>+"
        using edge [OF 4(2)] 4(3) by (rule trancl_into_trancl2)
      with 4(1) show ?thesis by (auto simp: visited'_def)
    qed
  qed
qed

lemma findDependents_unfold:
  "findDependents p cfg =
     bfs_loop (Packages cfg) [p] (filter (\<lambda>dep. dep \<noteq> p) (directDependents (Packages cfg) p))
       (filter (\<lambda>dep. dep \<noteq> p) (directDependents (Packages cfg) p))"
  by (simp add: findDependents_def Let_def)

lemma findDependents_sound:
  assumes "x \<in> set (findDependents p cfg)"
  shows "x \<noteq> p \<and> (p, x) \<in> (dependents_rel (Packages cfg))\<^sup>+"
proof -
  let ?new = "filter (\<lambda>dep. dep \<noteq> p) (directDependents (Packages cfg) p)"
  have edge: "(p, n) \<in> dependents_rel (Packages cfg)" if "n \<in> set ?new" for n
    using that by (auto simp: set_directDependents dependents_rel_def)
  from assms have "x \<in> set ?new \<or>
     (x \<notin> set [p] \<and> (\<exists>q. q \<in> set ?new \<and> (q, x) \<in> (dependents_rel (Packages cfg))\<^sup>+))"
    unfolding findDependents_unfold by (rule bfs_loop_sound)
  then show ?thesis
  proof
    assume "x \<in> set ?new"
    then show ?thesis using edge by auto
  next
    assume "x \<notin> set [p] \<and> (\<exists>q. q \<in> set ?new \<and> (q, x) \<in> (dependents_rel (Packages cfg))\<^sup>+)"
    then obtain q where "x \<noteq> p" "q \<in> set ?new" "(q, x) \<in> (dependents_rel (Packages cfg))\<^sup>+"
      by auto
    then show ?thesis using edge [of q] by (auto intro: trancl_into_trancl2)
  qed
qed

lemma bfs_loop_complete:
  assumes "\<forall>v y. v \<in> set visited \<and> (v, y) \<in> dependents_rel pkgs \<longrightarrow> y \<in> set visited \<union> set queue"
    and "p \<in> set visited \<union> set queue"
    and "set visited \<union> set queue \<subseteq> set result \<union> {p}"
  shows "(dependents_rel pkgs)\<^sup>* `` {p} \<subseteq> set (bfs_loop pkgs visited queue result) \<union> {p}"
  using assms
proof (induction pkgs visited queue result rule: bfs_loop.induct)
  case (1 pkgs visited result)
  have "y \<in> set visited" if "(p, y) \<in> (dependents_rel pkgs)\<^sup>*" for y
    using that
  proof (induction rule: rtrancl_induct)
    case base
    then show ?case using 1(2) by simp
  next
    case (step y z)
    then show ?case using 1(1) by auto
  qed
  then show ?case using 1(3) by auto
next
  case (2 pkgs visited current queue result)
  show ?case
  proof (cases "current \<in> set visited")
    case True
    have "(dependents_rel pkgs)\<^sup>* `` {p} \<subseteq> set (bfs_loop pkgs visited queue result) \<union> {p}"
    proof (rule "2.IH"(1) [OF True])
      show "\<forall>v y. v \<in> set visited \<and> (v, y) \<in> dependents_rel pkgs \<longrightarrow> y \<in> set visited \<union> set queue"
        using "2.prems"(1) True by auto
      show "p \<in> set visited \<union> set queue" using "2.prems"(2) True by auto
      show "set visited \<union> set queue \<subseteq> set result \<union> {p}" using "2.prems"(3) by auto
    qed
    with True show ?thesis by simp
  next
    case False
    define visited' where "visited' = current # visited"
    define new where "new = filter (\<lambda>dep. dep \<notin> set visited') (directDependents pkgs current)"
    have "(dependents_rel pkgs)\<^sup>* `` {p}
        \<subseteq> set (bfs_loop pkgs visited' (queue @ new) (result @ new)) \<union> {p}"
    proof (rule "2.IH"(2) [OF False visited'_def new_def])
      show "\<forall>v y. v \<in> set visited' \<and> (v, y) \<in> dependents_rel pkgs \<longrightarrow>
              y \<in> set visited' \<union> set (queue @ new)"
      proof (intro allI impI)
        fix v y assume vy: "v \<in> set visited' \<and> (v, y) \<in> dependents_rel pkgs"
        show "y \<in> set visited' \<union> set (queue @ new)"
        proof (cases "v = current")
          case True
          then have "y \<in> set (directDependents pkgs current)"
            using vy by (auto simp: set_directDependents dependents_rel_def)
          then show ?thesis by (auto simp: new_def)
        next
          case False
          then have "v \<in> set visited" using vy by (simp add: visited'_def)
          then have "y \<in> set visited \<union> set (current # queue)"
            using "2.prems"(1) vy by blast
          then show ?thesis by (auto simp: visited'_def)
        qed
      qed
      show "p \<in> set visited' \<union> set (queue @ new)"
        using "2.prems"(2) by (auto simp: visited'_def)
      show "set visited' \<union> set (queue @ new) \<subseteq> set (result @ new) \<union> {p}"
        using "2.prems"(3) by (auto simp: visited'_def)
    qed
    with False show ?thesis by (simp add: visited'_def new_def Let_def)
  qed
qed

lemma findDependents_complete:
  assumes "(p, x) \<in> (dependents_rel (Packages cfg))\<^sup>+" and "x \<noteq> p"
  shows "x \<in> set (findDependents p cfg)"
proof -
  have "(dependents_rel (Packages cfg))\<^sup>* `` {p} \<subseteq> set (findDependents p cfg) \<union> {p}"
    unfolding findDependents_def by (rule bfs_loop_complete) auto
  moreover have "(p, x) \<in> (dependents_rel (Packages cfg))\<^sup>*" using assms(1) by simp
  ultimately show ?thesis using assms(2) by auto
qed

lemma Invalidate_frame:
  "Invalidate c t d = (t', e) \<Longrightarrow>
     sourceMissing t' = sourceMissing t \<and> removeFails t' = removeFails t \<and>
     writeFails t' = writeFails t \<and>
     (\<forall>path. path \<noteq> cachePath c d \<longrightarrow> cacheFiles t' path = cacheFiles t path) \<and>
     (cacheFiles t' (cachePath c d) = cacheFiles t (cachePath c d) \<or>
      cacheFiles t' (cachePath c d) = NoFile) \<and>
     (e = None \<longrightarrow> cacheFiles t' (cachePath c d) = NoFile)"
  by (auto simp: Invalidate_def split: if_splits)

lemma invalidate_each_frame:
  "invalidate_each c t ds = (t', e) \<Longrightarrow>
     sourceMissing t' = sourceMissing t \<and>
     (\<forall>path. path \<notin> cachePath c ` set ds \<longrightarrow> cacheFiles t' path = cacheFiles t path) \<and>
     (\<forall>path. cacheFiles t' path = cacheFiles t path \<or> cacheFiles t' path = NoFile) \<and>
     (e = None \<longrightarrow> (\<forall>n. n \<in> set ds \<longrightarrow> cacheFiles t' (cachePath c n) = NoFile))"
proof (induction ds arbitrary: t)
  case Nil
  then show ?case by simp
next
  case (Cons d ds)
  obtain t1 e1 where inv: "Invalidate c t d = (t1, e1)" by (cases "Invalidate c t d")
  note f1 = Invalidate_frame [OF inv]
  show ?case
  proof (cases e1)
    case (Some err)
    with Cons.prems inv have t': "t' = t1" and e: "e \<noteq> None" by auto
    show ?thesis unfolding t'
    proof (intro conjI allI impI)
      show "sourceMissing t1 = sourceMissing t" using f1 by simp
    next
      fix path assume "path \<notin> cachePath c ` set (d # ds)"
      then have "path \<noteq> cachePath c d" by auto
      then show "cacheFiles t1 path = cacheFiles t path" using f1 by simp
    next
      fix path show "cacheFiles t1 path = cacheFiles t path \<or> cacheFiles t1 path = NoFile"
        using f1 by metis
    next
      fix n assume "e = None"
      then show "cacheFiles t1 (cachePath c n) = NoFile" using e by simp
    qed
  next
    case None
    with Cons.prems inv have rest: "invalidate_each c t1 ds = (t', e)" by simp
    note f2 = Cons.IH [OF rest]
    from f1 None have d: "cacheFiles t1 (cachePath c d) = NoFile" by simp
    show ?thesis
    proof (intro conjI allI impI)
      show "sourceMissing t' = sourceMissing t" using f1 f2 by simp
    next
      fix path assume "path \<notin> cachePath c ` set (d # ds)"
      then have "path \<noteq> cachePath c d" "path \<notin> cachePath c ` set ds" by auto
      then show "cacheFiles t' path = cacheFiles t path" using f1 f2 by simp
    next
      fix path show "cacheFiles t' path = cacheFiles t path \<or> cacheFiles t' path = NoFile"
        using f1 f2 d by metis
    next
      fix n assume e: "e = None" and n: "n \<in> set (d # ds)"
      show "cacheFiles t' (cachePath c n) = NoFile"
      proof (cases "n \<in> set ds")
        case True
        then show ?thesis using f2 e by simp
      next
        case False
        then have "n = d" using n by simp
        then show ?thesis using f2 d by metis
      qed
    qed
  qed
qed

lemma dependents_rel_set:
  "dependents_rel pkgs = set (concat (map (\<lambda>p. map (\<lambda>d. (d, Name p)) (DependsOn p)) pkgs))"
  by (auto simp: dependents_rel_def)

text \<open>
  Claim C3: in a catalog whose dependency graph is acyclic, after
  \<open>InvalidateDependents(p)\<close> has returned without error the cache file of every transitive
  dependent of \<open>p\<close> is absent, and the source tree of that dependent is as it was.
\<close>

theorem C3_InvalidateDependents_removes_dependents:
  assumes "acyclic (dependents_rel (Packages cfg))"
    and "InvalidateDependents c t p cfg = (t', None)"
    and "(p, d) \<in> (dependents_rel (Packages cfg))\<^sup>+"
  shows "cacheFiles t' (cachePath c d) = NoFile \<and>
         sourceMissing t' (srcDir c d) = sourceMissing t (srcDir c d)"
proof -
  have "d \<noteq> p" using assms(1,3) by (auto simp: acyclic_def)
  then have "d \<in> set (findDependents p cfg)"
    using assms(3) by (simp add: findDependents_complete)
  then show ?thesis
    using invalidate_each_frame [OF assms(2) [unfolded InvalidateDependents_def]] by simp
qed

lemma example_chain_rel:
  "dependents_rel
     [example_pkg ''a'' [], example_pkg ''b'' [''a''], example_pkg ''c'' [''b'']]
   = {(''a'', ''b''), (''b'', ''c'')}"
  by (simp add: dependents_rel_set example_pkg_def)

lemma example_chain_dependents:
  "findDependents ''a''
     (example_cfg [example_pkg ''a'' [], example_pkg ''b'' [''a''], example_pkg ''c'' [''b'']])
   = [''b'', ''c'']"
  by (simp add: findDependents_def example_cfg_def directDependents_eq example_pkg_def)

text \<open>
  Claim C3 on the chain \<open>a \<leftarrow> b \<leftarrow> c\<close>: rebuilding \<open>a\<close> removes the cache file of \<open>c\<close>.
\<close>

theorem C3_InvalidateDependents_witness:
  "acyclic (dependents_rel (Packages (example_cfg
      [example_pkg ''a'' [], example_pkg ''b'' [''a''], example_pkg ''c'' [''b'']]))) \<and>
   snd (InvalidateDependents example_cache
      (example_tree [example_pkg ''a'' [], example_pkg ''b'' [''a''], example_pkg ''c'' [''b'']])
      ''a''
      (example_cfg [example_pkg ''a'' [], example_pkg ''b'' [''a''], example_pkg ''c'' [''b'']]))
     = None \<and>
   (''a'', ''c'') \<in> (dependents_rel (Packages (example_cfg
      [example_pkg ''a'' [], example_pkg ''b'' [''a''], example_pkg ''c'' [''b'']])))\<^sup>+ \<and>
   cacheFiles
     (example_tree [example_pkg ''a'' [], example_pkg ''b'' [''a''], example_pkg ''c'' [''b'']])
     (cachePath example_cache ''c'') \<noteq> NoFile \<and>
   cacheFiles (fst (InvalidateDependents example_cache
      (example_tree [example_pkg ''a'' [], example_pkg ''b'' [''a''], example_pkg ''c'' [''b'']])
      ''a''
      (example_cfg [example_pkg ''a'' [], example_pkg ''b'' [''a''], example_pkg ''c'' [''b'']])))
     (cachePath example_cache ''c'') = NoFile"
proof -
  let ?pkgs = "[example_pkg ''a'' [], example_pkg ''b'' [''a''], example_pkg ''c'' [''b'']]"
  let ?cfg = "example_cfg ?pkgs"
  let ?t = "example_tree ?pkgs"
  have P: "Packages ?cfg = ?pkgs" by (simp add: example_cfg_def)
  have ac: "acyclic (dependents_rel (Packages ?cfg))"
    unfolding P example_chain_rel
    by (rule acyclicI_order [where f = "\<lambda>n. if n = ''a'' then 3 else if n = ''b'' then 2 else (1::nat)"])
       auto
  have ok: "snd (InvalidateDependents example_cache ?t ''a'' ?cfg) = None"
    by (simp add: InvalidateDependents_def example_chain_dependents Invalidate_def
        example_tree_def)
  then have run: "InvalidateDependents example_cache ?t ''a'' ?cfg = (fst (InvalidateDependents example_cache ?t ''a'' ?cfg), None)"
    by (metis prod.collapse)
  have tr: "(''a'', ''c'') \<in> (dependents_rel (Packages ?cfg))\<^sup>+"
    unfolding P example_chain_rel
    by (rule trancl_into_trancl [of _ "''b''"]) auto
  have before: "cacheFiles ?t (cachePath example_cache ''c'') \<noteq> NoFile"
    by (simp add: example_tree_def example_pkg_def)
  from C3_InvalidateDependents_removes_dependents [OF ac run tr] ac ok tr before
  show ?thesis by simp
qed

lemma example_cachePath_a: "cachePath example_cache ''a'' = ''/build/a/makepkg.json''"
  by code_simp

lemma example_cachePath_b: "cachePath example_cache ''b'' = ''/build/b/makepkg.json''"
  by code_simp

lemma example_cachePath_alias: "cachePath example_cache ''./a'' = ''/build/a/makepkg.json''"
  by code_simp

lemma example_alias_dependents:
  "findDependents ''a''
     (example_cfg [example_pkg ''a'' [], example_pkg ''./a'' [''a'']]) = [''./a'']"
  by (simp add: findDependents_def example_cfg_def directDependents_eq example_pkg_def)

text \<open>
  Claim C9 fails where two package names denote one directory.  In the catalog of \<open>a\<close> and
  \<open>./a\<close>, the second depending on the first, both cache files are
  \<open>/build/a/makepkg.json\<close>: invalidating the dependents of \<open>a\<close> removes the file of \<open>./a\<close>,
  which is the file of \<open>a\<close>.
\<close>

theorem C9_aliased_directory_counterexample:
  "findDependents ''a'' (example_cfg [example_pkg ''a'' [], example_pkg ''./a'' [''a'']])
     = [''./a''] \<and>
   cacheFiles (example_tree [example_pkg ''a'' [], example_pkg ''./a'' [''a'']])
     (cachePath example_cache ''a'') = CacheFile (example_info (example_pkg ''a'' [])) \<and>
   snd (InvalidateDependents example_cache
       (example_tree [example_pkg ''a'' [], example_pkg ''./a'' [''a'']]) ''a''
       (example_cfg [example_pkg ''a'' [], example_pkg ''./a'' [''a'']])) = None \<and>
   cacheFiles (fst (InvalidateDependents example_cache
       (example_tree [example_pkg ''a'' [], example_pkg ''./a'' [''a'']]) ''a''
       (example_cfg [example_pkg ''a'' [], example_pkg ''./a'' [''a'']])))
     (cachePath example_cache ''a'') = NoFile"
  unfolding InvalidateDependents_def example_alias_dependents
  by (simp add: Invalidate_def example_tree_def example_pkg_def example_cachePath_a
      example_cachePath_alias)

text \<open>
  Claim C9, amended: for every catalog (cycles included), every build tree and every package
  \<open>p\<close>, a cache file that \<open>InvalidateDependents(p)\<close> changes is removed and is the cache file
  of a package other than \<open>p\<close> that is reachable from \<open>p\<close> in the reverse-dependency graph,
  whether or not an error is returned; and the cache file of \<open>p\<close> is left as it is when no
  such package has the cache path of \<open>p\<close> (no other reachable name joins with the build
  directory to the directory of \<open>p\<close>).
\<close>

theorem C9_InvalidateDependents_amended:
  "(\<forall>path. cacheFiles (fst (InvalidateDependents c t p cfg)) path \<noteq> cacheFiles t path \<longrightarrow>
      cacheFiles (fst (InvalidateDependents c t p cfg)) path = NoFile \<and>
      (\<exists>d. d \<noteq> p \<and> (p, d) \<in> (dependents_rel (Packages cfg))\<^sup>+ \<and> path = cachePath c d)) \<and>
   ((\<forall>d. d \<noteq> p \<and> (p, d) \<in> (dependents_rel (Packages cfg))\<^sup>+ \<longrightarrow>
          cachePath c d \<noteq> cachePath c p) \<longrightarrow>
      cacheFiles (fst (InvalidateDependents c t p cfg)) (cachePath c p)
        = cacheFiles t (cachePath c p))"
proof -
  obtain t' e where run: "invalidate_each c t (findDependents p cfg) = (t', e)"
    by (cases "invalidate_each c t (findDependents p cfg)")
  note fr = invalidate_each_frame [OF run]
  have t': "fst (InvalidateDependents c t p cfg) = t'"
    by (simp add: InvalidateDependents_def run)
  have changed: "cacheFiles t' path = NoFile \<and>
      (\<exists>d. d \<noteq> p \<and> (p, d) \<in> (dependents_rel (Packages cfg))\<^sup>+ \<and> path = cachePath c d)"
    if "cacheFiles t' path \<noteq> cacheFiles t path" for path
  proof -
    have "path \<in> cachePath c ` set (findDependents p cfg)" using that fr by blast
    then obtain d where d: "d \<in> set (findDependents p cfg)" and path: "path = cachePath c d"
      by auto
    have "d \<noteq> p \<and> (p, d) \<in> (dependents_rel (Packages cfg))\<^sup>+"
      using d by (rule findDependents_sound)
    moreover have "cacheFiles t' path = NoFile" using that fr by metis
    ultimately show ?thesis using path by blast
  qed
  have "cacheFiles t' (cachePath c p) = cacheFiles t (cachePath c p)"
    if "\<forall>d. d \<noteq> p \<and> (p, d) \<in> (dependents_rel (Packages cfg))\<^sup>+ \<longrightarrow>
          cachePath c d \<noteq> cachePath c p"
    using changed [of "cachePath c p"] that by metis
  with changed show ?thesis unfolding t' by blast
qed

lemma example_cycle_dependents:
  "findDependents ''a''
     (example_cfg [example_pkg ''a'' [''b''], example_pkg ''b'' [''a'']]) = [''b'']"
  by (simp add: findDependents_def example_cfg_def directDependents_eq example_pkg_def)

text \<open>
  Claim C9, amended, on the cycle \<open>a \<leftrightarrow> b\<close>: \<open>a\<close> is reachable from itself and only \<open>b\<close>
  is another reachable package, with a cache path of its own; the cache file of \<open>a\<close> stays
  and that of \<open>b\<close> is removed.
\<close>

theorem C9_InvalidateDependents_amended_witness:
  "cacheFiles (fst (InvalidateDependents example_cache
       (example_tree [example_pkg ''a'' [''b''], example_pkg ''b'' [''a'']]) ''a''
       (example_cfg [example_pkg ''a'' [''b''], example_pkg ''b'' [''a'']])))
     (cachePath example_cache ''b'') = NoFile \<and>
   cacheFiles (example_tree [example_pkg ''a'' [''b''], example_pkg ''b'' [''a'']])
     (cachePath example_cache ''b'') = CacheFile (example_info (example_pkg ''b'' [''a''])) \<and>
   cachePath example_cache ''b'' \<noteq> cachePath example_cache ''a'' \<and>
   (''a'', ''b'') \<in> (dependents_rel (Packages
       (example_cfg [example_pkg ''a'' [''b''], example_pkg ''b'' [''a'']])))\<^sup>+ \<and>
   (''a'', ''a'') \<in> (dependents_rel (Packages
       (example_cfg [example_pkg ''a'' [''b''], example_pkg ''b'' [''a'']])))\<^sup>+ \<and>
   cacheFiles (fst (InvalidateDependents example_cache
       (example_tree [example_pkg ''a'' [''b''], example_pkg ''b'' [''a'']]) ''a''
       (example_cfg [example_pkg ''a'' [''b''], example_pkg ''b'' [''a'']])))
     (cachePath example_cache ''a'')
     = CacheFile (example_info (example_pkg ''a'' [''b'']))"
proof -
  let ?pkgs = "[example_pkg ''a'' [''b''], example_pkg ''b'' [''a'']]"
  let ?cfg = "example_cfg ?pkgs"
  let ?t = "example_tree ?pkgs"
  let ?t' = "fst (InvalidateDependents example_cache ?t ''a'' ?cfg)"
  have P: "Packages ?cfg = ?pkgs" by (simp add: example_cfg_def)
  have rel: "dependents_rel ?pkgs = {(''b'', ''a''), (''a'', ''b'')}"
    by (simp add: dependents_rel_set example_pkg_def)
  have paths: "cachePath example_cache ''b'' \<noteq> cachePath example_cache ''a''"
    by (simp add: example_cachePath_a example_cachePath_b)
  have b: "cacheFiles ?t (cachePath example_cache ''b'')
             = CacheFile (example_info (example_pkg ''b'' [''a'']))"
    by (simp add: example_tree_def example_pkg_def example_cachePath_a example_cachePath_b)
  have a: "cacheFiles ?t (cachePath example_cache ''a'')
             = CacheFile (example_info (example_pkg ''a'' [''b'']))"
    by (simp add: example_tree_def example_pkg_def)
  have removed: "cacheFiles ?t' (cachePath example_cache ''b'') = NoFile"
    unfolding InvalidateDependents_def example_cycle_dependents
    by (simp add: Invalidate_def example_tree_def)
  have ab: "(''a'', ''b'') \<in> (dependents_rel (Packages ?cfg))\<^sup>+"
    unfolding P rel by (rule r_into_trancl) simp
  have aa: "(''a'', ''a'') \<in> (dependents_rel (Packages ?cfg))\<^sup>+"
    unfolding P rel by (rule trancl_into_trancl [of _ "''b''"], rule r_into_trancl) auto
  have others: "\<forall>d. d \<noteq> ''a'' \<and> (''a'', d) \<in> (dependents_rel (Packages ?cfg))\<^sup>+ \<longrightarrow>
                  cachePath example_cache d \<noteq> cachePath example_cache ''a''"
  proof (intro allI impI)
    fix d assume d: "d \<noteq> ''a'' \<and> (''a'', d) \<in> (dependents_rel (Packages ?cfg))\<^sup>+"
    then have "(''a'', d) \<in> (dependents_rel ?pkgs)\<^sup>+" unfolding P by simp
    then have "d \<in> Range ((dependents_rel ?pkgs)\<^sup>+)" by (rule RangeI)
    then have "d \<in> Range (dependents_rel ?pkgs)" by (simp only: trancl_range)
    then have "d = ''b''" using d unfolding rel by auto
    then show "cachePath example_cache d \<noteq> cachePath example_cache ''a''"
      using paths by simp
  qed
  from C9_InvalidateDependents_amended [of example_cache ?t "''a''" ?cfg] others
  have "cacheFiles ?t' (cachePath example_cache ''a'')
          = cacheFiles ?t (cachePath example_cache ''a'')"
    by blast
  with removed b paths ab aa a show ?thesis by simp
qed
subsection \<open>Cache writes\<close>

lemma first_byte_size:
  "first_byte x = Some (sz, lo, hi) \<Longrightarrow> 2 \<le> sz \<and> sz \<le> 4"
  by (auto simp: first_byte_def split: if_splits)

lemma DecodeRuneInString_prefix:
  assumes "DecodeRuneInString s = (True, k)"
  shows "1 \<le> k \<and> k \<le> 4 \<and> k \<le> length s \<and> DecodeRuneInString (take k s @ r) = (True, k)"
proof (cases s)
  case Nil
  then show ?thesis using assms by (simp add: DecodeRuneInString_def)
next
  case (Cons s0 t1)
  show ?thesis
  proof (cases "(of_char s0 :: nat) < 0x80")
    case True
    then show ?thesis using assms Cons by (auto simp: DecodeRuneInString_def)
  next
    case False
    then obtain sz lo hi where fb: "first_byte (of_char s0) = Some (sz, lo, hi)"
      using assms Cons by (cases "first_byte (of_char s0)") (auto simp: DecodeRuneInString_def)
    note size = first_byte_size [OF fb]
    show ?thesis
      using assms Cons False fb size
      by (auto simp: DecodeRuneInString_def split: list.splits if_splits)
  qed
qed

lemma DecodeRuneInString_RuneError:
  "DecodeRuneInString (CHR 0xEF # CHR 0xBF # CHR 0xBD # r) = (True, 3)"
  by (simp add: DecodeRuneInString_def first_byte_def continuation_byte_def)

lemma json_string_idem: "json_string (json_string s) = json_string s"
proof (induction "length s" arbitrary: s rule: less_induct)
  case less
  show ?case
  proof (cases s)
    case Nil
    then show ?thesis by (simp add: json_string.simps)
  next
    case (Cons b src)
    have ih: "json_string (json_string u) = json_string u" if "length u \<le> length src" for u
      using less [of u] that Cons by simp
    show ?thesis
    proof (cases "(of_char b :: nat) < 0x80")
      case True
      then show ?thesis using Cons ih [of src] by (simp add: json_string.simps)
    next
      case hi: False
      obtain ok sz where dec: "DecodeRuneInString (take 4 (b # src)) = (ok, sz)"
        by (cases "DecodeRuneInString (take 4 (b # src))")
      show ?thesis
      proof (cases ok)
        case False
        have eq: "json_string (b # src) = RuneError_bytes @ json_string src"
          by (subst json_string.simps) (simp only: hi if_False dec False prod.case bool.case)
        have "json_string (CHR 0xEF # CHR 0xBF # CHR 0xBD # json_string src)
            = CHR 0xEF # CHR 0xBF # CHR 0xBD # json_string (json_string src)"
          by (subst json_string.simps) (simp add: DecodeRuneInString_RuneError)
        then show ?thesis using ih [of src] by (simp add: Cons eq RuneError_bytes_def)
      next
        case True
        have eq: "json_string (b # src) = b # take (sz - 1) src @ json_string (drop (sz - 1) src)"
          by (subst json_string.simps) (simp only: hi if_False dec True prod.case bool.case)
        let ?rest = "json_string (drop (sz - 1) src)"
        from dec True have d: "DecodeRuneInString (take 4 (b # src)) = (True, sz)" by simp
        note pre = DecodeRuneInString_prefix [OF d]
        have sz: "1 \<le> sz" "sz \<le> 4" "sz - 1 \<le> length src" using pre [of "[]"] by auto
        have tk: "take sz (take 4 (b # src)) = b # take (sz - 1) src"
          using sz by (cases sz) (simp_all add: min_def)
        have win: "take 4 (b # take (sz - 1) src @ ?rest)
                     = (b # take (sz - 1) src) @ take (4 - sz) ?rest"
          using sz by (cases sz) (simp_all add: min_def)
        have d': "DecodeRuneInString (take 4 (b # take (sz - 1) src @ ?rest)) = (True, sz)"
          using pre [of "take (4 - sz) ?rest"] by (simp only: win tk)
        have "json_string (b # take (sz - 1) src @ ?rest)
            = b # take (sz - 1) (take (sz - 1) src @ ?rest)
                @ json_string (drop (sz - 1) (take (sz - 1) src @ ?rest))"
          by (subst json_string.simps) (simp only: hi if_False d' prod.case bool.case)
        also have "\<dots> = b # take (sz - 1) src @ json_string ?rest"
          using sz by (simp add: min_def)
        finally show ?thesis using ih [of "drop (sz - 1) src"] by (simp add: Cons eq)
      qed
    qed
  qed
qed

lemma json_Info_fields:
  "Info_URL (json_Info i) = json_string (Info_URL i)"
  "Info_Build (json_Info i) = json_string (Info_Build i)"
  "Info_Install (json_Info i) = json_string (Info_Install i)"
  "Info_Env (json_Info i) = map json_string (Info_Env i)"
  "Info_Host (json_Info i) = json_string (Info_Host i)"
  "Info_Sysroot (json_Info i) = json_string (Info_Sysroot i)"
  by (simp_all add: json_Info_def)

lemma json_Info_idem: "json_Info (json_Info i) = json_Info i"
  by (simp add: json_Info_def json_string_idem)

lemma json_string_ascii:
  "(\<And>b. b \<in> set s \<Longrightarrow> (of_char b :: nat) < 0x80) \<Longrightarrow> json_string s = s"
  by (induction s) (simp_all add: json_string.simps)

lemma Info_build_update:
  "i\<lparr>Info_URL := u, Info_Build := b, Info_Env := e, Info_Host := h, Info_Sysroot := s\<rparr> =
     \<lparr>Info_URL = u, Info_Build = b, Info_Install = Info_Install i, Info_Env = e,
      Info_Host = h, Info_Sysroot = s\<rparr>"
  by (cases i) simp

lemma Info_install_update:
  "i\<lparr>Info_Install := x, Info_Env := e, Info_Host := h, Info_Sysroot := s\<rparr> =
     \<lparr>Info_URL = Info_URL i, Info_Build = Info_Build i, Info_Install = x, Info_Env = e,
      Info_Host = h, Info_Sysroot = s\<rparr>"
  by (cases i) simp

lemma json_string_Nil: "json_string [] = []"
  by (simp add: json_string.simps)

lemma WriteBuild_success:
  assumes "WriteBuild c t n s h p = (t1, None)"
  shows "\<exists>r. Read c t n = Inr r \<and>
     Read c t1 n = Inr (Some
       \<lparr>Info_URL = json_string (URL p), Info_Build = json_string (Build p),
        Info_Install = json_string (case r of None \<Rightarrow> [] | Some i \<Rightarrow> Info_Install i),
        Info_Env = map json_string (Env p), Info_Host = json_string h,
        Info_Sysroot = json_string s\<rparr>)"
  using assms
  by (auto simp: WriteBuild_def Read_def write_cache_def emptyInfo_def Let_def json_Info_def
      Info_build_update split: cache_file.splits option.splits)

lemma WriteInstall_success:
  assumes "WriteInstall c t n s h p = (t1, None)"
  shows "\<exists>r. Read c t n = Inr r \<and>
     Read c t1 n = Inr (Some
       \<lparr>Info_URL = json_string (case r of None \<Rightarrow> [] | Some i \<Rightarrow> Info_URL i),
        Info_Build = json_string (case r of None \<Rightarrow> [] | Some i \<Rightarrow> Info_Build i),
        Info_Install = json_string (Install p),
        Info_Env = map json_string (Env p), Info_Host = json_string h,
        Info_Sysroot = json_string s\<rparr>)"
  using assms
  by (auto simp: WriteInstall_def Read_def write_cache_def emptyInfo_def Let_def json_Info_def
      Info_install_update split: cache_file.splits option.splits)

lemma example_cachePath_zlib:
  "cachePath example_cache ''zlib'' = ''/build/zlib/makepkg.json''"
  by code_simp

lemma json_string_invalid_byte: "json_string [CHR 0xFF] = [CHR 0xEF, CHR 0xBF, CHR 0xBD]"
  by code_simp

text \<open>
  Claim C6 fails from a starting state in which the cache file cannot be decoded:
  \<open>WriteBuild\<close> returns the error of \<open>Read\<close> and writes nothing, so does \<open>WriteInstall\<close>, and
  no record is persisted.  It also fails, with both writes succeeding, for a build recipe
  that is not valid UTF-8: the persisted build field is not the one of the call.
\<close>

theorem C6_corrupt_cache_counterexample:
  "snd (WriteBuild example_cache example_corrupt_tree ''zlib'' ''/s1'' ''h1''
          (example_pkg ''zlib'' []))
     = Some ReadExistingFailed \<and>
   snd (WriteInstall example_cache
          (fst (WriteBuild example_cache example_corrupt_tree ''zlib'' ''/s1'' ''h1''
                  (example_pkg ''zlib'' [])))
          ''zlib'' ''/s2'' ''h2'' (example_pkg ''zlib'' []))
     = Some ReadExistingFailed \<and>
   Read example_cache
     (fst (WriteInstall example_cache
        (fst (WriteBuild example_cache example_corrupt_tree ''zlib'' ''/s1'' ''h1''
                (example_pkg ''zlib'' [])))
        ''zlib'' ''/s2'' ''h2'' (example_pkg ''zlib'' [])))
     ''zlib''
     = Inl ReadFailed \<and>
   Read example_cache
     (fst (WriteInstall example_cache
        (fst (WriteBuild example_cache (example_tree []) ''zlib'' ''/s1'' ''h1''
               ((example_pkg ''zlib'' [])\<lparr>Build := [CHR 0xFF]\<rparr>)))
        ''zlib'' ''/s2'' ''h2'' (example_pkg ''zlib'' [])))
     ''zlib''
   = Inr (Some
       \<lparr>Info_URL = ''http://zlib'', Info_Build = [CHR 0xEF, CHR 0xBF, CHR 0xBD],
        Info_Install = ''make install'', Info_Env = [], Info_Host = ''h2'',
        Info_Sysroot = ''/s2''\<rparr>)"
  by code_simp

text \<open>
  Claim C6, amended: when \<open>WriteBuild\<close> and then \<open>WriteInstall\<close> both return without error
  (the cache file was absent or could be decoded, and the file system accepted the writes),
  the persisted record has the url and build of the first call, the install of the second
  and the env, host and sysroot of the second (the latest) call, each string as the JSON file
  holds it: every byte that belongs to no valid UTF-8 sequence replaced by U+FFFD.  The
  record that \<open>WriteBuild\<close> leaves has the url, build, env, host and sysroot of its call and
  keeps the install field of a record that was there before, in the same encoding.
\<close>

theorem C6_WriteBuild_then_WriteInstall_amended:
  assumes "WriteBuild c t n s1 h1 p1 = (t1, None)"
    and "WriteInstall c t1 n s2 h2 p2 = (t2, None)"
  shows "Read c t2 n = Inr (Some
       \<lparr>Info_URL = json_string (URL p1), Info_Build = json_string (Build p1),
        Info_Install = json_string (Install p2), Info_Env = map json_string (Env p2),
        Info_Host = json_string h2, Info_Sysroot = json_string s2\<rparr>) \<and>
     (\<exists>r. Read c t n = Inr r \<and>
        Read c t1 n = Inr (Some
          \<lparr>Info_URL = json_string (URL p1), Info_Build = json_string (Build p1),
           Info_Install = json_string (case r of None \<Rightarrow> [] | Some i \<Rightarrow> Info_Install i),
           Info_Env = map json_string (Env p1), Info_Host = json_string h1,
           Info_Sysroot = json_string s1\<rparr>))"
proof -
  from WriteBuild_success [OF assms(1)] obtain r where
    r: "Read c t n = Inr r" and
    r1: "Read c t1 n = Inr (Some
       \<lparr>Info_URL = json_string (URL p1), Info_Build = json_string (Build p1),
        Info_Install = json_string (case r of None \<Rightarrow> [] | Some i \<Rightarrow> Info_Install i),
        Info_Env = map json_string (Env p1), Info_Host = json_string h1,
        Info_Sysroot = json_string s1\<rparr>)"
    by blast
  from WriteInstall_success [OF assms(2)] r1
  have "Read c t2 n = Inr (Some
       \<lparr>Info_URL = json_string (json_string (URL p1)),
        Info_Build = json_string (json_string (Build p1)),
        Info_Install = json_string (Install p2), Info_Env = map json_string (Env p2),
        Info_Host = json_string h2, Info_Sysroot = json_string s2\<rparr>)"
    by auto
  then show ?thesis using r r1 by (simp add: json_string_idem)
qed

text \<open>
  Claim C6, amended, on a built package: the build recipe is edited before \<open>WriteBuild\<close>,
  the install recipe before \<open>WriteInstall\<close>; the strings are ASCII and are stored as they
  are.
\<close>

theorem C6_WriteBuild_then_WriteInstall_amended_witness:
  "snd (WriteBuild example_cache (example_tree [example_pkg ''zlib'' []]) ''zlib'' ''/s1'' ''h1''
          ((example_pkg ''zlib'' [])\<lparr>Build := ''make -j2''\<rparr>)) = None \<and>
   snd (WriteInstall example_cache
          (fst (WriteBuild example_cache (example_tree [example_pkg ''zlib'' []]) ''zlib''
                  ''/s1'' ''h1'' ((example_pkg ''zlib'' [])\<lparr>Build := ''make -j2''\<rparr>)))
          ''zlib'' ''/s2'' ''h2''
          ((example_pkg ''zlib'' [])\<lparr>Install := ''make install-strip''\<rparr>)) = None \<and>
   Read example_cache
     (fst (WriteInstall example_cache
        (fst (WriteBuild example_cache (example_tree [example_pkg ''zlib'' []]) ''zlib''
                ''/s1'' ''h1'' ((example_pkg ''zlib'' [])\<lparr>Build := ''make -j2''\<rparr>)))
        ''zlib'' ''/s2'' ''h2''
        ((example_pkg ''zlib'' [])\<lparr>Install := ''make install-strip''\<rparr>)))
     ''zlib''
   = Inr (Some
       \<lparr>Info_URL = ''http://zlib'', Info_Build = ''make -j2'',
        Info_Install = ''make install-strip'', Info_Env = [], Info_Host = ''h2'',
        Info_Sysroot = ''/s2''\<rparr>)"
proof -
  let ?t = "example_tree [example_pkg ''zlib'' []]"
  let ?p1 = "(example_pkg ''zlib'' [])\<lparr>Build := ''make -j2''\<rparr>"
  let ?p2 = "(example_pkg ''zlib'' [])\<lparr>Install := ''make install-strip''\<rparr>"
  let ?t1 = "fst (WriteBuild example_cache ?t ''zlib'' ''/s1'' ''h1'' ?p1)"
  let ?t2 = "fst (WriteInstall example_cache ?t1 ''zlib'' ''/s2'' ''h2'' ?p2)"
  have b: "snd (WriteBuild example_cache ?t ''zlib'' ''/s1'' ''h1'' ?p1) = None"
    by (simp add: WriteBuild_def Read_def write_cache_def example_tree_def example_pkg_def
        Let_def)
  have i: "snd (WriteInstall example_cache ?t1 ''zlib'' ''/s2'' ''h2'' ?p2) = None"
    by (simp add: WriteBuild_def WriteInstall_def Read_def write_cache_def example_tree_def
        example_pkg_def Let_def)
  have b': "WriteBuild example_cache ?t ''zlib'' ''/s1'' ''h1'' ?p1 = (?t1, None)"
    using b by (metis prod.collapse)
  have i': "WriteInstall example_cache ?t1 ''zlib'' ''/s2'' ''h2'' ?p2 = (?t2, None)"
    using i by (metis prod.collapse)
  have strings:
    "json_string ''http://zlib'' = ''http://zlib''"
    "json_string ''make -j2'' = ''make -j2''"
    "json_string ''make install-strip'' = ''make install-strip''"
    "json_string ''h2'' = ''h2''"
    "json_string ''/s2'' = ''/s2''"
    by code_simp+
  from C6_WriteBuild_then_WriteInstall_amended [OF b' i']
  have "Read example_cache ?t2 ''zlib'' = Inr (Some
       \<lparr>Info_URL = json_string (URL ?p1), Info_Build = json_string (Build ?p1),
        Info_Install = json_string (Install ?p2), Info_Env = map json_string (Env ?p2),
        Info_Host = json_string ''h2'', Info_Sysroot = json_string ''/s2''\<rparr>)"
    by blast
  then have "Read example_cache ?t2 ''zlib'' = Inr (Some
       \<lparr>Info_URL = ''http://zlib'', Info_Build = ''make -j2'',
        Info_Install = ''make install-strip'', Info_Env = [], Info_Host = ''h2'',
        Info_Sysroot = ''/s2''\<rparr>)"
    by (simp add: example_pkg_def strings)
  with b i show ?thesis by blast
qed
subsection \<open>Build order\<close>

lemma reverseInDegree_names:
  "dom (reverseInDegree pkgs) = Name ` set pkgs"
proof -
  have "dom (fold (\<lambda>pkg m. m(Name pkg \<mapsto> int (length (DependsOn pkg)))) pkgs m)
        = dom m \<union> Name ` set pkgs" for m :: "string \<rightharpoonup> int"
    by (induction pkgs arbitrary: m) auto
  then show ?thesis by (simp add: reverseInDegree_eq)
qed

lemma fold_degree_other:
  "n \<notin> Name ` set pkgs \<Longrightarrow>
     fold (\<lambda>pkg m. m(Name pkg \<mapsto> int (length (DependsOn pkg)))) pkgs m n = m n"
  by (induction pkgs arbitrary: m) auto

lemma reverseInDegree_pkg:
  assumes "distinct (map Name pkgs)" and "p \<in> set pkgs"
  shows "reverseInDegree pkgs (Name p) = Some (int (length (DependsOn p)))"
proof -
  have "fold (\<lambda>pkg m. m(Name pkg \<mapsto> int (length (DependsOn pkg)))) pkgs m (Name p)
        = Some (int (length (DependsOn p)))" for m :: "string \<rightharpoonup> int"
    using assms
  proof (induction pkgs arbitrary: m)
    case Nil
    then show ?case by simp
  next
    case (Cons q pkgs)
    show ?case
    proof (cases "p \<in> set pkgs")
      case True
      have d: "distinct (map Name pkgs)" using Cons.prems by simp
      have "fold (\<lambda>pkg m. m(Name pkg \<mapsto> int (length (DependsOn pkg)))) (q # pkgs) m (Name p)
          = fold (\<lambda>pkg m. m(Name pkg \<mapsto> int (length (DependsOn pkg)))) pkgs
              (m(Name q \<mapsto> int (length (DependsOn q)))) (Name p)"
        by (simp only: fold_simps o_apply)
      also have "\<dots> = Some (int (length (DependsOn p)))"
        using d True by (rule Cons.IH)
      finally show ?thesis .
    next
      case False
      then have q: "q = p" using Cons.prems by simp
      have notin: "Name p \<notin> Name ` set pkgs" using Cons.prems q by auto
      have "fold (\<lambda>pkg m. m(Name pkg \<mapsto> int (length (DependsOn pkg)))) (q # pkgs) m (Name p)
          = fold (\<lambda>pkg m. m(Name pkg \<mapsto> int (length (DependsOn pkg)))) pkgs
              (m(Name p \<mapsto> int (length (DependsOn p)))) (Name p)"
        by (simp only: q fold_simps o_apply)
      also have "\<dots> = (m(Name p \<mapsto> int (length (DependsOn p)))) (Name p)"
        using notin by (rule fold_degree_other)
      finally show ?thesis by (simp only: fun_upd_same)
    qed
  qed
  then show ?thesis by (simp add: reverseInDegree_eq)
qed

lemma count_reverseGraph:
  assumes "distinct (map Name pkgs)" and "p \<in> set pkgs"
  shows "count_list (reverseGraph pkgs d) (Name p) = count_list (DependsOn p) d"
proof -
  have cnt: "count_list (map (\<lambda>x. n) xs) m = (if m = n then length xs else 0)"
    for n m :: string and xs :: "string list"
    by (induction xs) auto
  have len: "length (filter (\<lambda>x. x = d) xs) = count_list xs d" for xs :: "string list"
    by (induction xs) auto
  have "count_list (concat (map (\<lambda>pkg. map (\<lambda>x. Name pkg) (filter (\<lambda>x. x = d) (DependsOn pkg))) pkgs))
          (Name p) = count_list (DependsOn p) d"
    using assms
  proof (induction pkgs)
    case Nil
    then show ?case by simp
  next
    case (Cons q pkgs)
    show ?case
    proof (cases "q = p")
      case True
      then have "Name p \<notin> Name ` set pkgs" using Cons.prems by auto
      then have "count_list (concat (map (\<lambda>pkg. map (\<lambda>x. Name pkg)
                    (filter (\<lambda>x. x = d) (DependsOn pkg))) pkgs)) (Name p) = 0"
        by (induction pkgs) (auto simp: cnt)
      then show ?thesis using True by (simp add: cnt len)
    next
      case False
      then have "p \<in> set pkgs" "Name q \<noteq> Name p" using Cons.prems by auto
      then show ?thesis using Cons by (simp add: cnt)
    qed
  qed
  then show ?thesis by (simp add: reverseGraph_eq directDependents_eq)
qed

lemma visit_dependent_eq:
  "visit_dependent x (deg, nq) =
     (deg(x \<mapsto> degree_of deg x - 1), if degree_of deg x = 1 then nq @ [x] else nq)"
  by (simp add: visit_dependent_def Let_def degree_of_def)

lemma degree_of_upd:
  "degree_of (deg(x \<mapsto> v)) n = (if n = x then v else degree_of deg n)"
  by (simp add: degree_of_def)

lemma fold_visit_Cons:
  "fold visit_dependent (x # L) (deg, nq) =
     fold visit_dependent L
       (deg(x \<mapsto> degree_of deg x - 1), if degree_of deg x = 1 then nq @ [x] else nq)"
  by (simp only: fold_simps o_apply visit_dependent_eq)

lemma fold_visit_degree:
  "degree_of (fst (fold visit_dependent L (deg, nq))) n = degree_of deg n - int (count_list L n)"
proof (induction L arbitrary: deg nq)
  case Nil
  then show ?case by simp
next
  case (Cons x L)
  let ?deg1 = "deg(x \<mapsto> degree_of deg x - 1)"
  let ?nq1 = "if degree_of deg x = 1 then nq @ [x] else nq"
  have "degree_of (fst (fold visit_dependent (x # L) (deg, nq))) n
      = degree_of ?deg1 n - int (count_list L n)"
    unfolding fold_visit_Cons by (rule Cons.IH)
  also have "degree_of ?deg1 n = (if n = x then degree_of deg x - 1 else degree_of deg n)"
    by (rule degree_of_upd)
  finally show ?case by (cases "n = x") simp_all
qed

lemma fold_visit_queue:
  "\<exists>hits. snd (fold visit_dependent L (deg, nq)) = nq @ hits \<and> distinct hits \<and>
      set hits = {n. n \<in> set L \<and> 1 \<le> degree_of deg n \<and> degree_of deg n \<le> int (count_list L n)}"
proof (induction L arbitrary: deg nq)
  case Nil
  then show ?case by simp
next
  case (Cons x L)
  let ?deg1 = "deg(x \<mapsto> degree_of deg x - 1)"
  let ?nq1 = "if degree_of deg x = 1 then nq @ [x] else nq"
  from Cons.IH [of ?deg1 ?nq1] obtain hits where
    h: "snd (fold visit_dependent L (?deg1, ?nq1)) = ?nq1 @ hits" "distinct hits"
      "set hits = {n. n \<in> set L \<and> 1 \<le> degree_of ?deg1 n \<and> degree_of ?deg1 n \<le> int (count_list L n)}"
    by blast
  let ?hits = "(if degree_of deg x = 1 then [x] else []) @ hits"
  have 1: "snd (fold visit_dependent (x # L) (deg, nq)) = nq @ ?hits"
    unfolding fold_visit_Cons h(1) by simp
  have 2: "distinct ?hits"
    using h(2,3) by (auto simp: degree_of_upd)
  have in_if: "n \<in> set L" if "0 < count_list L n" for n
    using that by (cases "n \<in> set L") (simp_all add: count_list_0_iff)
  have 3: "set ?hits = {n. n \<in> set (x # L) \<and> 1 \<le> degree_of deg n \<and>
                  degree_of deg n \<le> int (count_list (x # L) n)}"
  proof (intro set_eqI iffI)
    fix n assume "n \<in> set ?hits"
    then consider "n = x" "degree_of deg x = 1" | "n \<in> set hits" by (auto split: if_splits)
    then show "n \<in> {n. n \<in> set (x # L) \<and> 1 \<le> degree_of deg n \<and>
                  degree_of deg n \<le> int (count_list (x # L) n)}"
    proof cases
      case 1
      then show ?thesis by simp
    next
      case 2
      then show ?thesis unfolding h(3) by (auto simp: degree_of_upd split: if_splits)
    qed
  next
    fix n assume a: "n \<in> {n. n \<in> set (x # L) \<and> 1 \<le> degree_of deg n \<and>
                  degree_of deg n \<le> int (count_list (x # L) n)}"
    show "n \<in> set ?hits"
    proof (cases "n = x")
      case True
      show ?thesis
      proof (cases "degree_of deg x = 1")
        case True
        then show ?thesis using \<open>n = x\<close> by simp
      next
        case False
        with a True have two: "2 \<le> degree_of deg x" "degree_of deg x \<le> int (count_list L x) + 1"
          by auto
        then have "0 < count_list L x" by linarith
        then have "x \<in> set L" by (rule in_if)
        then have "x \<in> set hits" unfolding h(3) using two by (simp add: degree_of_upd)
        then show ?thesis using True by simp
      qed
    next
      case False
      then have "n \<in> set hits" unfolding h(3) using a by (simp add: degree_of_upd)
      then show ?thesis by simp
    qed
  qed
  from 1 2 3 show ?case by blast
qed

lemma process_level_flat:
  "process_level pkgs queue deg processed =
     (fst (fold visit_dependent (concat (map (reverseGraph pkgs) queue)) (deg, [])),
      snd (fold visit_dependent (concat (map (reverseGraph pkgs) queue)) (deg, [])),
      processed + length queue)"
proof -
  have "fold (\<lambda>name (deg, newQueue, processed).
             (case fold visit_dependent (reverseGraph pkgs name) (deg, newQueue) of
                (deg', newQueue') \<Rightarrow> (deg', newQueue', processed + 1)))
       queue (d, nq, pr) =
     (fst (fold visit_dependent (concat (map (reverseGraph pkgs) queue)) (d, nq)),
      snd (fold visit_dependent (concat (map (reverseGraph pkgs) queue)) (d, nq)),
      pr + length queue)" for d nq pr
  proof (induction queue arbitrary: d nq pr)
    case Nil
    then show ?case by simp
  next
    case (Cons name queue)
    obtain d1 nq1 where f: "fold visit_dependent (reverseGraph pkgs name) (d, nq) = (d1, nq1)"
      by (cases "fold visit_dependent (reverseGraph pkgs name) (d, nq)")
    have "fold (\<lambda>name (deg, newQueue, processed).
             (case fold visit_dependent (reverseGraph pkgs name) (deg, newQueue) of
                (deg', newQueue') \<Rightarrow> (deg', newQueue', processed + 1)))
       (name # queue) (d, nq, pr) =
      fold (\<lambda>name (deg, newQueue, processed).
             (case fold visit_dependent (reverseGraph pkgs name) (deg, newQueue) of
                (deg', newQueue') \<Rightarrow> (deg', newQueue', processed + 1)))
       queue (d1, nq1, pr + 1)"
      by (simp only: fold_simps o_apply prod.case f)
    also have "\<dots> = (fst (fold visit_dependent (concat (map (reverseGraph pkgs) queue)) (d1, nq1)),
      snd (fold visit_dependent (concat (map (reverseGraph pkgs) queue)) (d1, nq1)),
      pr + 1 + length queue)"
      by (rule Cons.IH)
    also have "fold visit_dependent (concat (map (reverseGraph pkgs) queue)) (d1, nq1)
       = fold visit_dependent (concat (map (reverseGraph pkgs) (name # queue))) (d, nq)"
      by (simp only: list.map concat.simps fold_append o_apply f)
    finally show ?case by simp
  qed
  from this [of deg "[]" processed] show ?thesis by (simp only: process_level_def)
qed

lemma count_list_concat:
  "count_list (concat xss) n = sum_list (map (\<lambda>xs. count_list xs n) xss)"
  by (induction xss) auto

lemma count_list_filter: "count_list ds m = length (filter (\<lambda>d. d = m) ds)"
  by (induction ds) auto

lemma length_filter_disj:
  "(\<And>d. d \<in> set ds \<Longrightarrow> \<not> (P d \<and> Q d)) \<Longrightarrow>
   length (filter (\<lambda>d. P d \<or> Q d) ds) = length (filter P ds) + length (filter Q ds)"
  by (induction ds) auto

lemma sum_count_distinct:
  "distinct qs \<Longrightarrow>
     sum_list (map (\<lambda>m. count_list ds m) qs) = length (filter (\<lambda>d. d \<in> set qs) ds)"
proof (induction qs)
  case Nil
  then show ?case by simp
next
  case (Cons m qs)
  have "length (filter (\<lambda>d. d \<in> set (m # qs)) ds)
      = length (filter (\<lambda>d. d = m \<or> d \<in> set qs) ds)"
    by simp
  also have "\<dots> = length (filter (\<lambda>d. d = m) ds) + length (filter (\<lambda>d. d \<in> set qs) ds)"
    using Cons.prems by (intro length_filter_disj) auto
  finally show ?case using Cons by (simp add: count_list_filter)
qed

lemma count_level:
  assumes "distinct (map Name pkgs)" and "p \<in> set pkgs" and "distinct queue"
  shows "count_list (concat (map (reverseGraph pkgs) queue)) (Name p)
       = length (filter (\<lambda>d. d \<in> set queue) (DependsOn p))"
proof -
  have "count_list (concat (map (reverseGraph pkgs) queue)) (Name p)
      = sum_list (map (\<lambda>m. count_list (reverseGraph pkgs m) (Name p)) queue)"
    by (simp add: count_list_concat o_def)
  also have "\<dots> = sum_list (map (\<lambda>m. count_list (DependsOn p) m) queue)"
    using assms(1,2) by (simp add: count_reverseGraph)
  also have "\<dots> = length (filter (\<lambda>d. d \<in> set queue) (DependsOn p))"
    using assms(3) by (rule sum_count_distinct)
  finally show ?thesis .
qed

end
